theory Spec2Isabelle
  imports Complex_Main "HOL-Library.AList"
begin

section \<open>Python values used by \<open>backend/aggregation.py\<close>\<close>

text \<open>
  The aggregation module is a set of functions over lists of \<open>Ranking\<close> objects and lists
  of candidate identifiers.  Python \<open>str\<close> is \<open>string\<close>, Python \<open>int\<close> is \<open>int\<close>, and
  Python \<open>float\<close> is idealised as \<open>real\<close> (all float values that occur are sums of small
  integers, halves, and products with the supplied confidences).  Every operation of the
  source that can raise is a function into \<open>py_error + 'a\<close>, with \<open>Inl\<close> the exception.
\<close>

datatype py_error = IndexError | KeyError | ValueError | ZeroDivisionError

type_synonym 'a result = "py_error + 'a"

definition bind :: "'a result \<Rightarrow> ('a \<Rightarrow> 'b result) \<Rightarrow> 'b result" where
  "bind m f = (case m of Inl e \<Rightarrow> Inl e | Inr v \<Rightarrow> f v)"

text \<open>\<open>for x in xs: body\<close> over a state \<open>s\<close>; an exception in the body leaves the loop.\<close>

fun for_each :: "'a list \<Rightarrow> ('a \<Rightarrow> 's \<Rightarrow> 's result) \<Rightarrow> 's \<Rightarrow> 's result" where
  "for_each [] body s = Inr s"
| "for_each (x # xs) body s = bind (body x s) (for_each xs body)"

text \<open>\<open>[f(x) for x in xs]\<close> where \<open>f\<close> may raise.\<close>

fun map_result :: "('a \<Rightarrow> 'b result) \<Rightarrow> 'a list \<Rightarrow> 'b list result" where
  "map_result f [] = Inr []"
| "map_result f (x # xs) = bind (f x) (\<lambda>y. bind (map_result f xs) (\<lambda>ys. Inr (y # ys)))"

subsection \<open>Lists\<close>

text \<open>\<open>xs[0]\<close> raises \<open>IndexError\<close> on the empty list.\<close>

definition list_first :: "'a list \<Rightarrow> 'a result" where
  "list_first xs = (case xs of [] \<Rightarrow> Inl IndexError | x # _ \<Rightarrow> Inr x)"

text \<open>\<open>xs.index(x)\<close> is the position of the first occurrence, \<open>ValueError\<close> if there is none.\<close>

definition first_index :: "'a list \<Rightarrow> 'a \<Rightarrow> nat" where
  "first_index xs x = length (takeWhile (\<lambda>y. y \<noteq> x) xs)"

definition list_index :: "'a list \<Rightarrow> 'a \<Rightarrow> int result" where
  "list_index xs x = (if x \<in> set xs then Inr (int (first_index xs x)) else Inl ValueError)"

text \<open>\<open>a / b\<close> on numbers raises \<open>ZeroDivisionError\<close> when \<open>b\<close> is zero.\<close>

definition truediv :: "real \<Rightarrow> real \<Rightarrow> real result" where
  "truediv a b = (if b = 0 then Inl ZeroDivisionError else Inr (a / b))"

subsection \<open>Dictionaries\<close>

text \<open>
  A \<open>dict\<close> keeps its keys in insertion order, and \<open>get_winner\<close> depends on that order, so
  a dictionary is an association list whose keys are distinct.  Storing under a key that
  is present replaces the value in place; a new key goes to the end
  (\<^const>\<open>AList.update\<close>).
\<close>

type_synonym ('k, 'v) dict = "('k \<times> 'v) list"

definition dict_keys :: "('k, 'v) dict \<Rightarrow> 'k list" where
  "dict_keys d = map fst d"

definition dict_values :: "('k, 'v) dict \<Rightarrow> 'v list" where
  "dict_values d = map snd d"

definition dict_contains :: "('k, 'v) dict \<Rightarrow> 'k \<Rightarrow> bool" where
  "dict_contains d k = (map_of d k \<noteq> None)"

definition dict_getitem :: "('k, 'v) dict \<Rightarrow> 'k \<Rightarrow> 'v result" where
  "dict_getitem d k = (case map_of d k of None \<Rightarrow> Inl KeyError | Some v \<Rightarrow> Inr v)"

definition dict_setitem :: "('k, 'v) dict \<Rightarrow> 'k \<Rightarrow> 'v \<Rightarrow> ('k, 'v) dict" where
  "dict_setitem d k v = AList.update k v d"

text \<open>\<open>{k: f(k) for k in ks}\<close> and \<open>dict.fromkeys(ks, v)\<close>.\<close>

definition dict_comp :: "('k \<Rightarrow> 'v) \<Rightarrow> 'k list \<Rightarrow> ('k, 'v) dict" where
  "dict_comp f ks = foldl (\<lambda>d k. dict_setitem d k (f k)) [] ks"

definition fromkeys :: "'k list \<Rightarrow> 'v \<Rightarrow> ('k, 'v) dict" where
  "fromkeys ks v = dict_comp (\<lambda>_. v) ks"

text \<open>\<open>d[k] += x\<close> reads \<open>d[k]\<close> (\<open>KeyError\<close> if absent) and stores the sum.\<close>

definition dict_iadd :: "('k, real) dict \<Rightarrow> 'k \<Rightarrow> real \<Rightarrow> ('k, real) dict result" where
  "dict_iadd d k x = bind (dict_getitem d k) (\<lambda>v. Inr (dict_setitem d k (v + x)))"

section \<open>The data model (\<open>backend/models.py\<close>)\<close>

text \<open>
  \<open>Ranking\<close>: the fields the aggregation module reads.  The field \<open>id\<close> is named
  \<open>ranking_id\<close> here; \<open>reasoning\<close>, \<open>created_at\<close> and \<open>source\<close> are never read by it.
\<close>

record Ranking =
  ranking_id :: string
  judge :: string
  rankings :: "string list"
  confidence :: real

section \<open>Result selection\<close>

text \<open>
  \<open>max(xs, key=f)\<close>: \<open>ValueError\<close> on an empty sequence; otherwise the first element is
  the current best, and a later element replaces it only when its key is strictly larger.
\<close>

fun max_loop :: "'a list \<Rightarrow> ('a \<Rightarrow> real result) \<Rightarrow> 'a \<Rightarrow> real \<Rightarrow> 'a result" where
  "max_loop [] key best bk = Inr best"
| "max_loop (x # xs) key best bk =
     bind (key x) (\<lambda>kx. if kx > bk then max_loop xs key x kx else max_loop xs key best bk)"

definition max_key :: "'a list \<Rightarrow> ('a \<Rightarrow> real result) \<Rightarrow> 'a result" where
  "max_key xs key =
     (case xs of [] \<Rightarrow> Inl ValueError
      | x # rest \<Rightarrow> bind (key x) (\<lambda>kx. max_loop rest key x kx))"

definition get_winner :: "(string, real) dict \<Rightarrow> string result" where
  "get_winner scores =
     (if scores = [] then Inr ''''
      else max_key (dict_keys scores) (\<lambda>k. dict_getitem scores k))"

text \<open>
  \<open>sorted(scores.keys(), key=lambda k: scores[k], reverse=True)\<close>: each key's score is
  read once, then the keys are sorted by descending score, stably.
\<close>

definition get_ranking :: "(string, real) dict \<Rightarrow> string list result" where
  "get_ranking scores =
     bind (map_result (\<lambda>k. bind (dict_getitem scores k) (\<lambda>v. Inr (k, v))) (dict_keys scores))
       (\<lambda>keyed. Inr (map fst (sort_key (\<lambda>(k, v). - v) keyed)))"

section \<open>Scoring methods\<close>

text \<open>\<open>Counter(xs).get(c, 0)\<close>: the number of occurrences of \<open>c\<close> in \<open>xs\<close>.\<close>

definition counter_get :: "'a list \<Rightarrow> 'a \<Rightarrow> int" where
  "counter_get xs c = int (count_list xs c)"

definition plurality :: "Ranking list \<Rightarrow> string list \<Rightarrow> (string, real) dict result" where
  "plurality rs candidates =
     bind (map_result (\<lambda>r. list_first (rankings r)) (filter (\<lambda>r. rankings r \<noteq> []) rs))
       (\<lambda>first_places. Inr (dict_comp (\<lambda>c. of_int (counter_get first_places c)) candidates))"

definition borda_count :: "Ranking list \<Rightarrow> string list \<Rightarrow> (string, real) dict result" where
  "borda_count rs candidates =
     (let n = int (length candidates) in
      for_each rs (\<lambda>ranking.
        for_each (enumerate 0 (rankings ranking)) (\<lambda>(position, candidate_id) scores.
          if dict_contains scores candidate_id
          then dict_iadd scores candidate_id (of_int (n - 1 - int position))
          else Inr scores))
        (fromkeys candidates 0))"

definition weighted_borda :: "Ranking list \<Rightarrow> string list \<Rightarrow> (string, real) dict result" where
  "weighted_borda rs candidates =
     (let n = int (length candidates) in
      for_each rs (\<lambda>ranking.
        let weight = confidence ranking in
        for_each (enumerate 0 (rankings ranking)) (\<lambda>(position, candidate_id) scores.
          if dict_contains scores candidate_id
          then dict_iadd scores candidate_id (of_int (n - 1 - int position) * weight)
          else Inr scores))
        (fromkeys candidates 0))"

definition count_pairwise_preferences ::
  "Ranking list \<Rightarrow> string \<Rightarrow> string \<Rightarrow> (int \<times> int) result" where
  "count_pairwise_preferences rs c1 c2 =
     for_each rs (\<lambda>ranking (c1_preferred, c2_preferred).
       if c1 \<in> set (rankings ranking) \<and> c2 \<in> set (rankings ranking) then
         bind (list_index (rankings ranking) c1) (\<lambda>pos1.
         bind (list_index (rankings ranking) c2) (\<lambda>pos2.
           if pos1 < pos2 then Inr (c1_preferred + 1, c2_preferred)
           else if pos2 < pos1 then Inr (c1_preferred, c2_preferred + 1)
           else Inr (c1_preferred, c2_preferred)))
       else Inr (c1_preferred, c2_preferred))
     (0, 0)"

definition award_pairwise_points ::
  "(string, real) dict \<Rightarrow> string \<Rightarrow> string \<Rightarrow> int \<Rightarrow> int \<Rightarrow> (string, real) dict result" where
  "award_pairwise_points wins c1 c2 c1_preferred c2_preferred =
     (if c1_preferred > c2_preferred then dict_iadd wins c1 1
      else if c2_preferred > c1_preferred then dict_iadd wins c2 1
      else bind (dict_iadd wins c1 (1 / 2)) (\<lambda>wins. dict_iadd wins c2 (1 / 2)))"

definition copeland_score :: "Ranking list \<Rightarrow> string list \<Rightarrow> (string, real) dict result" where
  "copeland_score rs candidates =
     for_each (enumerate 0 candidates) (\<lambda>(i, c1).
       for_each (drop (i + 1) candidates) (\<lambda>c2 wins.
         bind (count_pairwise_preferences rs c1 c2) (\<lambda>(c1_preferred, c2_preferred).
           award_pairwise_points wins c1 c2 c1_preferred c2_preferred)))
     (fromkeys candidates 0)"

section \<open>Ranked pairs\<close>

text \<open>\<open>pref[c1][c2] += 1\<close>: the row \<open>pref[c1]\<close> is updated in place.\<close>

definition dict2_iadd ::
  "('k, ('k, int) dict) dict \<Rightarrow> 'k \<Rightarrow> 'k \<Rightarrow> int \<Rightarrow> ('k, ('k, int) dict) dict result" where
  "dict2_iadd pref c1 c2 x =
     bind (dict_getitem pref c1) (\<lambda>row.
     bind (dict_getitem row c2) (\<lambda>v.
       Inr (dict_setitem pref c1 (dict_setitem row c2 (v + x)))))"

text \<open>The guard \<open>c1 in pref and c2 in pref[c1]\<close>, evaluated left to right.\<close>

definition dict2_contains :: "('k, ('k, 'v) dict) dict \<Rightarrow> 'k \<Rightarrow> 'k \<Rightarrow> bool result" where
  "dict2_contains pref c1 c2 =
     (if dict_contains pref c1
      then bind (dict_getitem pref c1) (\<lambda>row. Inr (dict_contains row c2))
      else Inr False)"

definition build_preference_matrix ::
  "Ranking list \<Rightarrow> string list \<Rightarrow> (string, (string, int) dict) dict result" where
  "build_preference_matrix rs candidates =
     for_each rs (\<lambda>ranking.
       for_each (enumerate 0 (rankings ranking)) (\<lambda>(i, c1).
         for_each (drop (i + 1) (rankings ranking)) (\<lambda>c2 pref.
           bind (dict2_contains pref c1 c2) (\<lambda>present.
             if present then dict2_iadd pref c1 c2 1 else Inr pref))))
     (dict_comp (\<lambda>c1. fromkeys candidates 0) candidates)"

definition calculate_margin_pairs ::
  "string list \<Rightarrow> (string, (string, int) dict) dict \<Rightarrow> (string \<times> string \<times> int) list result" where
  "calculate_margin_pairs candidates pref =
     for_each (enumerate 0 candidates) (\<lambda>(i, c1).
       for_each (drop (i + 1) candidates) (\<lambda>c2 pairs.
         bind (dict_getitem pref c1) (\<lambda>row1.
         bind (dict_getitem row1 c2) (\<lambda>p12.
         bind (dict_getitem pref c2) (\<lambda>row2.
         bind (dict_getitem row2 c1) (\<lambda>p21.
           let margin = p12 - p21 in
           if margin > 0 then Inr (pairs @ [(c1, c2, margin)])
           else if margin < 0 then Inr (pairs @ [(c2, c1, - margin)])
           else Inr pairs))))))
     []"

text \<open>
  The locked set is a Python \<open>set\<close> of pairs.  It is a list without repetitions here,
  in the order of insertion; the loop of \<open>_creates_cycle\<close> that runs over it appends the
  successors of \<open>current\<close> to the queue in that order.  (Python's own order is that of its
  hash table.  \<open>creates_cycle_iff\<close> below shows that the answer depends on the set alone.)
  \<open>visited\<close> is a set that only grows by elements it does not hold.
\<close>

definition set_add :: "'a list \<Rightarrow> 'a \<Rightarrow> 'a list" where
  "set_add xs x = (if x \<in> set xs then xs else xs @ [x])"

function creates_cycle_loop ::
  "(string \<times> string) list \<Rightarrow> string \<Rightarrow> string list \<Rightarrow> string list \<Rightarrow> bool" where
  "creates_cycle_loop locked winner visited [] = False"
| "creates_cycle_loop locked winner visited (current # queue) =
     (if current = winner then True
      else if current \<in> set visited then creates_cycle_loop locked winner visited queue
      else creates_cycle_loop locked winner (set_add visited current)
             (queue @ map snd (filter (\<lambda>(w, l). w = current) locked)))"
  by pat_completeness auto
termination
proof (relation "measures
    [\<lambda>(locked, winner, visited, queue). card ((snd ` set locked \<union> set queue) - set visited),
     \<lambda>(locked, winner, visited, queue). length queue]", goal_cases)
  case 1
  show ?case by simp
next
  case (2 locked winner visited current queue)
  then have "(snd ` set locked \<union> set queue) - set visited
      = (snd ` set locked \<union> set (current # queue)) - set visited"
    by auto
  then show ?case by simp
next
  case (3 locked winner visited current queue)
  let ?succ = "map snd (filter (\<lambda>(w, l). w = current) locked)"
  have "(snd ` set locked \<union> set (queue @ ?succ)) - set (set_add visited current)
      \<subset> (snd ` set locked \<union> set (current # queue)) - set visited"
    using 3 by (auto simp: set_add_def)
  then have "card ((snd ` set locked \<union> set (queue @ ?succ)) - set (set_add visited current))
      < card ((snd ` set locked \<union> set (current # queue)) - set visited)"
    by (intro psubset_card_mono) auto
  then show ?case by simp
qed

definition creates_cycle :: "(string \<times> string) list \<Rightarrow> string \<Rightarrow> string \<Rightarrow> bool" where
  "creates_cycle locked winner loser = creates_cycle_loop locked winner [] [loser]"

definition lock_pairs_without_cycles ::
  "(string \<times> string \<times> int) list \<Rightarrow> (string \<times> string) list" where
  "lock_pairs_without_cycles pairs =
     foldl (\<lambda>locked (winner, loser, margin).
       if \<not> creates_cycle locked winner loser then set_add locked (winner, loser) else locked)
     [] pairs"

text \<open>
  \<open>pairs.sort(key=lambda x: x[2], reverse=True)\<close> is a stable sort by descending margin:
  pairs of equal margin keep their order.  \<^const>\<open>sort_key\<close> is stable, so sorting by
  the negated margin is the same list.
\<close>

definition sort_pairs :: "(string \<times> string \<times> int) list \<Rightarrow> (string \<times> string \<times> int) list" where
  "sort_pairs pairs = sort_key (\<lambda>(winner, loser, margin). - margin) pairs"

text \<open>
  The body of \<open>ranked_pairs\<close>, in two parts: \<open>locked_pairs\<close> is the body up to the
  locked set (tally, margins, sort, locking), and \<open>ranked_pairs\<close> counts, for each
  candidate, the locked pairs that it wins.  That last loop runs over the locked set and
  adds \<open>1\<close> to one entry at each step, so its result does not depend on the order of the
  run.
\<close>

definition locked_pairs :: "Ranking list \<Rightarrow> string list \<Rightarrow> (string \<times> string) list result" where
  "locked_pairs rs candidates =
     bind (build_preference_matrix rs candidates) (\<lambda>pref.
     bind (calculate_margin_pairs candidates pref) (\<lambda>pairs.
       Inr (lock_pairs_without_cycles (sort_pairs pairs))))"

definition ranked_pairs :: "Ranking list \<Rightarrow> string list \<Rightarrow> (string, real) dict result" where
  "ranked_pairs rs candidates =
     bind (locked_pairs rs candidates) (\<lambda>locked.
       for_each locked (\<lambda>(winner, loser) scores. dict_iadd scores winner 1)
         (fromkeys candidates 0))"

section \<open>Analysis utilities\<close>

definition calculate_pairwise_agreement :: "Ranking \<Rightarrow> Ranking \<Rightarrow> string list \<Rightarrow> real result" where
  "calculate_pairwise_agreement r1 r2 candidates =
     bind
       (for_each (enumerate 0 candidates) (\<lambda>(i, c1).
          for_each (drop (i + 1) candidates) (\<lambda>c2 (agreements, comparisons).
            if c1 \<in> set (rankings r1) \<and> c2 \<in> set (rankings r1) \<and>
               c1 \<in> set (rankings r2) \<and> c2 \<in> set (rankings r2)
            then
              bind (list_index (rankings r1) c1) (\<lambda>pos1_r1.
              bind (list_index (rankings r1) c2) (\<lambda>pos2_r1.
              bind (list_index (rankings r2) c1) (\<lambda>pos1_r2.
              bind (list_index (rankings r2) c2) (\<lambda>pos2_r2.
                let r1_prefers_c1 = (pos1_r1 < pos2_r1);
                    r2_prefers_c1 = (pos1_r2 < pos2_r2)
                in Inr (if r1_prefers_c1 = r2_prefers_c1 then agreements + 1 else agreements,
                        comparisons + 1)))))
            else Inr (agreements, comparisons)))
        (0 :: int, 0 :: int))
       (\<lambda>(agreements, comparisons).
          if comparisons > 0 then truediv (of_int agreements) (of_int comparisons) else Inr 0)"

text \<open>\<open>matrix[j1][j2] = v\<close>: the row \<open>matrix[j1]\<close> is read, then updated in place.\<close>

definition dict2_setitem ::
  "('k, ('k, 'v) dict) dict \<Rightarrow> 'k \<Rightarrow> 'k \<Rightarrow> 'v \<Rightarrow> ('k, ('k, 'v) dict) dict result" where
  "dict2_setitem matrix j1 j2 v =
     bind (dict_getitem matrix j1) (\<lambda>row. Inr (dict_setitem matrix j1 (dict_setitem row j2 v)))"

definition agreement_matrix ::
  "Ranking list \<Rightarrow> string list \<Rightarrow> (string, (string, real) dict) dict result" where
  "agreement_matrix rs candidates =
     (let judges = map judge rs in
      for_each rs (\<lambda>r1.
        for_each rs (\<lambda>r2 matrix.
          if ranking_id r1 = ranking_id r2
          then dict2_setitem matrix (judge r1) (judge r2) 1
          else bind (calculate_pairwise_agreement r1 r2 candidates) (\<lambda>a.
                 dict2_setitem matrix (judge r1) (judge r2) a)))
      (dict_comp (\<lambda>j1. fromkeys judges 0) judges))"

text \<open>
  \<open>method_agreement\<close> runs a dictionary comprehension over the five entries of
  \<open>methods\<close>, whose names are distinct, in the order in which they are written.
\<close>

definition methods :: "(string \<times> (Ranking list \<Rightarrow> string list \<Rightarrow> (string, real) dict result)) list" where
  "methods =
     [(''plurality'', plurality),
      (''borda'', borda_count),
      (''weighted_borda'', weighted_borda),
      (''copeland'', copeland_score),
      (''ranked_pairs'', ranked_pairs)]"

definition method_agreement :: "Ranking list \<Rightarrow> string list \<Rightarrow> (string, string) dict result" where
  "method_agreement rs candidates =
     map_result (\<lambda>(name, method).
       bind (method rs candidates) (\<lambda>scores.
       bind (get_winner scores) (\<lambda>w. Inr (name, w))))
     methods"

definition diversity_score :: "Ranking list \<Rightarrow> string list \<Rightarrow> real result" where
  "diversity_score rs candidates =
     (if length rs < 2 then Inr 0
      else
        bind (agreement_matrix rs candidates) (\<lambda>matrix.
        let judges = dict_keys matrix in
        bind
          (for_each (enumerate 0 judges) (\<lambda>(i, j1).
             for_each (drop (i + 1) judges) (\<lambda>j2 (total_agreement, count).
               bind (dict_getitem matrix j1) (\<lambda>row.
               bind (dict_getitem row j2) (\<lambda>a.
                 Inr (total_agreement + a, count + 1)))))
           (0 :: real, 0 :: int))
          (\<lambda>(total_agreement, count).
             if count = 0 then Inr 0
             else bind (truediv total_agreement (of_int count)) (\<lambda>avg_agreement.
                    Inr (1 - avg_agreement)))))"

section \<open>Notions used in the statements\<close>

text \<open>\<open>d.get(k, default)\<close>; the statements below read scores with it.\<close>

definition dict_get :: "('k, 'v) dict \<Rightarrow> 'k \<Rightarrow> 'v \<Rightarrow> 'v" where
  "dict_get d k dflt = (case map_of d k of None \<Rightarrow> dflt | Some v \<Rightarrow> v)"

text \<open>
  The pairs visited by \<open>for i, c1 in enumerate(xs): for c2 in xs[i+1:]\<close>, in the order of
  the visit (\<open>for_each_pairs\<close> below).
\<close>

fun pairs_after :: "'a list \<Rightarrow> ('a \<times> 'a) list" where
  "pairs_after [] = []"
| "pairs_after (x # xs) = map (Pair x) xs @ pairs_after xs"

text \<open>The score a result holds for a candidate (\<open>0\<close> where there is none).\<close>

definition score_of :: "(string, real) dict result \<Rightarrow> string \<Rightarrow> real" where
  "score_of res c = (case res of Inl e \<Rightarrow> 0 | Inr scores \<Rightarrow> dict_get scores c 0)"

text \<open>
  A ranking places \<open>a\<close> strictly before \<open>b\<close> when both occur in its order and the first
  occurrence of \<open>a\<close> comes first.  \<open>prefer_count rs a b\<close> is the number of rankings
  that do, and \<open>duel rs c d\<close> the Copeland points that \<open>c\<close> takes from its comparison
  with \<open>d\<close>: \<open>1\<close> for more rankings on its side, \<open>1/2\<close> for a tie (\<open>0\<close>-\<open>0\<close> included),
  \<open>0\<close> otherwise.
\<close>

definition placed_before :: "Ranking \<Rightarrow> string \<Rightarrow> string \<Rightarrow> bool" where
  "placed_before r a b \<longleftrightarrow>
     a \<in> set (rankings r) \<and> b \<in> set (rankings r)
     \<and> first_index (rankings r) a < first_index (rankings r) b"

definition prefer_count :: "Ranking list \<Rightarrow> string \<Rightarrow> string \<Rightarrow> int" where
  "prefer_count rs a b = int (length (filter (\<lambda>r. placed_before r a b) rs))"

definition duel :: "Ranking list \<Rightarrow> string \<Rightarrow> string \<Rightarrow> real" where
  "duel rs c d =
     (if prefer_count rs c d > prefer_count rs d c then 1
      else if prefer_count rs d c > prefer_count rs c d then 0
      else 1 / 2)"

text \<open>
  A dictionary of dictionaries is a matrix over \<open>ks\<close> when its keys and the keys of each
  of its rows are the elements of \<open>ks\<close>; \<open>dict2_get\<close> reads a cell.
\<close>

definition matrix_over :: "'k list \<Rightarrow> ('k, ('k, 'v) dict) dict \<Rightarrow> bool" where
  "matrix_over ks m \<longleftrightarrow>
     set (dict_keys m) = set ks \<and> distinct (dict_keys m)
     \<and> (\<forall>k \<in> set ks. \<exists>row. map_of m k = Some row \<and> set (dict_keys row) = set ks)"

definition dict2_get :: "('k, ('k, 'v) dict) dict \<Rightarrow> 'k \<Rightarrow> 'k \<Rightarrow> 'v \<Rightarrow> 'v" where
  "dict2_get m a b dflt = dict_get (dict_get m a []) b dflt"

text \<open>
  The candidate pairs that both rankings can compare, those on which they agree, and the
  ratio of the two counts.  \<open>entry\<close> is the value that \<open>agreement_matrix\<close> stores for a
  pair of rankings, and \<open>last_by_judge\<close> the last ranking of a judge in the list.
\<close>

definition comparable_pairs :: "Ranking \<Rightarrow> Ranking \<Rightarrow> string list \<Rightarrow> (string \<times> string) list" where
  "comparable_pairs r1 r2 candidates =
     filter (\<lambda>(c1, c2). c1 \<in> set (rankings r1) \<and> c2 \<in> set (rankings r1)
                        \<and> c1 \<in> set (rankings r2) \<and> c2 \<in> set (rankings r2))
       (pairs_after candidates)"

definition agreeing_pairs :: "Ranking \<Rightarrow> Ranking \<Rightarrow> string list \<Rightarrow> (string \<times> string) list" where
  "agreeing_pairs r1 r2 candidates =
     filter (\<lambda>(c1, c2). (first_index (rankings r1) c1 < first_index (rankings r1) c2)
                        = (first_index (rankings r2) c1 < first_index (rankings r2) c2))
       (comparable_pairs r1 r2 candidates)"

definition pairwise_agreement :: "Ranking \<Rightarrow> Ranking \<Rightarrow> string list \<Rightarrow> real" where
  "pairwise_agreement r1 r2 candidates =
     (if comparable_pairs r1 r2 candidates = [] then 0
      else real (length (agreeing_pairs r1 r2 candidates))
           / real (length (comparable_pairs r1 r2 candidates)))"

definition entry :: "string list \<Rightarrow> Ranking \<Rightarrow> Ranking \<Rightarrow> real" where
  "entry candidates r1 r2 =
     (if ranking_id r1 = ranking_id r2 then 1 else pairwise_agreement r1 r2 candidates)"

definition last_by_judge :: "Ranking list \<Rightarrow> string \<Rightarrow> Ranking option" where
  "last_by_judge rs j = find (\<lambda>r. judge r = j) (rev rs)"

section \<open>Example inputs\<close>

text \<open>The three preferences of the specification's plurality and Borda examples.\<close>

definition example_rankings :: "Ranking list" where
  "example_rankings =
     [\<lparr>ranking_id = ''a'', judge = ''j1'', rankings = [''r1'', ''r2'', ''r3''], confidence = 1\<rparr>,
      \<lparr>ranking_id = ''b'', judge = ''j2'', rankings = [''r2'', ''r1'', ''r3''], confidence = 1\<rparr>,
      \<lparr>ranking_id = ''c'', judge = ''j3'', rankings = [''r1'', ''r3'', ''r2''], confidence = 1\<rparr>]"

text \<open>A cyclic majority: \<open>A > B > C\<close>, \<open>B > C > A\<close>, \<open>C > A > B\<close>.\<close>

definition cyclic_rankings :: "Ranking list" where
  "cyclic_rankings =
     [\<lparr>ranking_id = ''a'', judge = ''j1'', rankings = [''A'', ''B'', ''C''], confidence = 1\<rparr>,
      \<lparr>ranking_id = ''b'', judge = ''j2'', rankings = [''B'', ''C'', ''A''], confidence = 1\<rparr>,
      \<lparr>ranking_id = ''c'', judge = ''j3'', rankings = [''C'', ''A'', ''B''], confidence = 1\<rparr>]"

text \<open>Two preferences with confidences outside \<open>[0, 1]\<close>.\<close>

definition weighted_rankings :: "Ranking list" where
  "weighted_rankings =
     [\<lparr>ranking_id = ''a'', judge = ''j1'', rankings = [''r1'', ''r2''], confidence = - 2\<rparr>,
      \<lparr>ranking_id = ''b'', judge = ''j2'', rankings = [''r2'', ''r1''], confidence = 3 / 2\<rparr>]"

text \<open>The judge \<open>j1\<close> occurs on two rankings that disagree with each other.\<close>

definition repeated_judge_rankings :: "Ranking list" where
  "repeated_judge_rankings =
     [\<lparr>ranking_id = ''a'', judge = ''j1'', rankings = [''r1'', ''r2''], confidence = 1\<rparr>,
      \<lparr>ranking_id = ''b'', judge = ''j1'', rankings = [''r2'', ''r1''], confidence = 1\<rparr>,
      \<lparr>ranking_id = ''c'', judge = ''j2'', rankings = [''r1'', ''r2''], confidence = 1\<rparr>]"

text \<open>Two judges who rank the only candidate identically.\<close>

definition single_candidate_rankings :: "Ranking list" where
  "single_candidate_rankings =
     [\<lparr>ranking_id = ''a'', judge = ''j1'', rankings = [''x''], confidence = 1\<rparr>,
      \<lparr>ranking_id = ''b'', judge = ''j2'', rankings = [''x''], confidence = 1\<rparr>]"

text \<open>Two judges with the same order over three candidates.\<close>

definition unanimous_rankings :: "Ranking list" where
  "unanimous_rankings =
     [\<lparr>ranking_id = ''a'', judge = ''j1'', rankings = [''r1'', ''r2'', ''r3''], confidence = 1\<rparr>,
      \<lparr>ranking_id = ''b'', judge = ''j2'', rankings = [''r1'', ''r2'', ''r3''], confidence = 1\<rparr>]"

text \<open>
  Malformed input: an unknown identifier, a repeated candidate, an empty order, and
  confidences outside \<open>[0, 1]\<close>; used with a candidate list that repeats a candidate.
\<close>

definition malformed_rankings :: "Ranking list" where
  "malformed_rankings =
     [\<lparr>ranking_id = ''a'', judge = ''j1'', rankings = [''zz'', ''r1'', ''r1''], confidence = 7\<rparr>,
      \<lparr>ranking_id = ''b'', judge = ''j2'', rankings = [], confidence = - 1\<rparr>]"

section \<open>Properties\<close>

subsection \<open>The error monad\<close>

lemma bind_Inr [simp]: "bind (Inr v) f = f v"
  by (simp add: bind_def)

lemma bind_Inl [simp]: "bind (Inl e) f = Inl e"
  by (simp add: bind_def)

subsection \<open>Reading a dictionary by position\<close>

lemma dict_getitem_distinct:
  "distinct (map fst d) \<Longrightarrow> i < length d \<Longrightarrow> dict_getitem d (fst (d ! i)) = Inr (snd (d ! i))"
proof -
  assume d: "distinct (map fst d)" and i: "i < length d"
  from i have "(fst (d ! i), snd (d ! i)) \<in> set d"
    by (metis nth_mem prod.collapse)
  with d have "map_of d (fst (d ! i)) = Some (snd (d ! i))"
    by (rule map_of_is_SomeI)
  then show ?thesis
    by (simp add: dict_getitem_def)
qed

subsection \<open>\<open>get_winner\<close>\<close>

lemma max_loop_first_max:
  fixes ys :: "'a list" and f :: "'a \<Rightarrow> real"
  assumes "ys = pre @ xs"
    and "\<And>x. x \<in> set xs \<Longrightarrow> key x = Inr (f x)"
    and "i < length pre"
    and "\<And>j. j < length pre \<Longrightarrow> f (ys ! j) \<le> f (ys ! i)"
    and "\<And>j. j < i \<Longrightarrow> f (ys ! j) < f (ys ! i)"
  shows "\<exists>m < length ys. max_loop xs key (ys ! i) (f (ys ! i)) = Inr (ys ! m)
           \<and> (\<forall>j < length ys. f (ys ! j) \<le> f (ys ! m))
           \<and> (\<forall>j < m. f (ys ! j) < f (ys ! m))"
  using assms
proof (induction xs arbitrary: pre i)
  case Nil
  then show ?case
    by (intro exI [of _ i]) simp
next
  case (Cons x xs)
  let ?n = "length pre"
  have ys: "ys = (pre @ [x]) @ xs"
    using Cons.prems(1) by simp
  have xn: "ys ! ?n = x"
    using Cons.prems(1) by simp
  have keys: "\<And>z. z \<in> set xs \<Longrightarrow> key z = Inr (f z)"
    using Cons.prems(2) by simp
  have kx: "key x = Inr (f x)"
    using Cons.prems(2) by simp
  show ?case
  proof (cases "f x > f (ys ! i)")
    case True
    have a: "?n < length (pre @ [x])"
      by simp
    have b: "\<And>j. j < length (pre @ [x]) \<Longrightarrow> f (ys ! j) \<le> f (ys ! ?n)"
    proof -
      fix j assume "j < length (pre @ [x])"
      then have "j < ?n \<or> j = ?n" by auto
      then show "f (ys ! j) \<le> f (ys ! ?n)"
        using Cons.prems(4) True xn by (auto intro: order_trans less_imp_le)
    qed
    have c: "\<And>j. j < ?n \<Longrightarrow> f (ys ! j) < f (ys ! ?n)"
      using Cons.prems(4) True xn by (auto intro: le_less_trans)
    from Cons.IH [OF ys keys a b c] True kx xn show ?thesis
      by simp
  next
    case False
    have a: "i < length (pre @ [x])"
      using Cons.prems(3) by simp
    have b: "\<And>j. j < length (pre @ [x]) \<Longrightarrow> f (ys ! j) \<le> f (ys ! i)"
    proof -
      fix j assume "j < length (pre @ [x])"
      then have "j < ?n \<or> j = ?n" by auto
      then show "f (ys ! j) \<le> f (ys ! i)"
        using Cons.prems(4) False xn by auto
    qed
    from Cons.IH [OF ys keys a b Cons.prems(5)] False kx show ?thesis
      by simp
  qed
qed

text \<open>
  Claim C8.  On the empty score map \<open>get_winner\<close> returns the empty string.  On a
  non-empty score map (a dictionary, so its keys are distinct) it returns the key of some
  entry \<open>m\<close> such that no entry has a larger score and every entry before \<open>m\<close> in the
  map's iteration order has a strictly smaller score: the first maximum.
\<close>

theorem get_winner_contract:
  "get_winner [] = Inr '''' \<and>
   (scores \<noteq> [] \<and> distinct (dict_keys scores) \<longrightarrow>
     (\<exists>m < length scores. get_winner scores = Inr (fst (scores ! m))
        \<and> (\<forall>j < length scores. snd (scores ! j) \<le> snd (scores ! m))
        \<and> (\<forall>j < m. snd (scores ! j) < snd (scores ! m))))"
proof (intro conjI impI)
  show "get_winner [] = Inr ''''"
    by (simp add: get_winner_def)
next
  assume h: "scores \<noteq> [] \<and> distinct (dict_keys scores)"
  then obtain p rest where sc: "scores = p # rest"
    by (cases scores) auto
  define ks where "ks = dict_keys scores"
  define f where "f = (\<lambda>k. the (map_of scores k))"
  have d: "distinct (map fst scores)"
    using h by (simp add: dict_keys_def)
  have len: "length ks = length scores"
    by (simp add: ks_def dict_keys_def)
  have nth: "\<And>j. j < length scores \<Longrightarrow> ks ! j = fst (scores ! j)"
    by (simp add: ks_def dict_keys_def)
  have val: "\<And>j. j < length scores \<Longrightarrow> f (ks ! j) = snd (scores ! j)"
  proof -
    fix j assume j: "j < length scores"
    from dict_getitem_distinct [OF d j] show "f (ks ! j) = snd (scores ! j)"
      by (simp add: f_def nth j dict_getitem_def split: option.splits)
  qed
  have key: "\<And>k. k \<in> set ks \<Longrightarrow> dict_getitem scores k = Inr (f k)"
  proof -
    fix k assume "k \<in> set ks"
    then obtain j where j: "j < length scores" and k: "k = ks ! j"
      by (metis in_set_conv_nth len)
    from dict_getitem_distinct [OF d j] show "dict_getitem scores k = Inr (f k)"
      by (simp add: k nth j val [OF j, unfolded nth [OF j]])
  qed
  have ks: "ks = [fst p] @ map fst rest"
    by (simp add: ks_def dict_keys_def sc)
  have key': "\<And>k. k \<in> set (map fst rest) \<Longrightarrow> dict_getitem scores k = Inr (f k)"
    using key ks by simp
  have "\<exists>m < length ks. max_loop (map fst rest) (\<lambda>k. dict_getitem scores k) (ks ! 0) (f (ks ! 0))
            = Inr (ks ! m)
          \<and> (\<forall>j < length ks. f (ks ! j) \<le> f (ks ! m))
          \<and> (\<forall>j < m. f (ks ! j) < f (ks ! m))"
    by (rule max_loop_first_max [OF ks key']) simp_all
  then obtain m where m: "m < length ks"
    and r: "max_loop (map fst rest) (\<lambda>k. dict_getitem scores k) (ks ! 0) (f (ks ! 0)) = Inr (ks ! m)"
    and mx: "\<forall>j < length ks. f (ks ! j) \<le> f (ks ! m)"
    and fst: "\<forall>j < m. f (ks ! j) < f (ks ! m)"
    by blast
  have k0: "dict_getitem scores (fst p) = Inr (f (fst p))"
    using key ks by simp
  have "get_winner scores = Inr (ks ! m)"
    using r k0 ks by (simp add: get_winner_def sc dict_keys_def max_key_def)
  moreover have "\<forall>j < length scores. snd (scores ! j) \<le> snd (scores ! m)"
    using mx m len val by auto
  moreover have "\<forall>j < m. snd (scores ! j) < snd (scores ! m)"
    using fst m len val by auto
  ultimately show "\<exists>m < length scores. get_winner scores = Inr (fst (scores ! m))
        \<and> (\<forall>j < length scores. snd (scores ! j) \<le> snd (scores ! m))
        \<and> (\<forall>j < m. snd (scores ! j) < snd (scores ! m))"
    using m len nth by auto
qed

theorem get_winner_contract_witness:
  "[(''a'', 1), (''b'', 3), (''c'', 3)] \<noteq> ([] :: (string, real) dict)
   \<and> distinct (dict_keys [(''a'', 1 :: real), (''b'', 3), (''c'', 3)])
   \<and> get_winner [(''a'', 1), (''b'', 3), (''c'', 3)] = Inr ''b''
   \<and> get_winner [] = Inr ''''"
  using get_winner_contract [of "[(''a'', 1), (''b'', 3), (''c'', 3)]"]
  by (simp add: get_winner_def max_key_def dict_keys_def dict_getitem_def)

subsection \<open>Loops over lists and over pairs\<close>

lemma for_each_append:
  "for_each (xs @ ys) body s = bind (for_each xs body s) (for_each ys body)"
proof (induction xs arbitrary: s)
  case Nil
  show ?case by simp
next
  case (Cons x xs)
  show ?case
    by (cases "body x s") (simp_all add: Cons.IH)
qed

lemma for_each_map: "for_each (map f xs) body s = for_each xs (\<lambda>x. body (f x)) s"
proof (induction xs arbitrary: s)
  case Nil
  show ?case by simp
next
  case (Cons x xs)
  show ?case
    by (cases "body (f x) s") (simp_all add: Cons.IH)
qed

lemma for_each_acc:
  fixes m :: "'s \<Rightarrow> 'b::monoid_add"
  assumes "I s"
    and "\<And>x s. x \<in> set xs \<Longrightarrow> I s \<Longrightarrow> \<exists>s'. body x s = Inr s' \<and> I s' \<and> m s' = m s + w x"
  shows "\<exists>s'. for_each xs body s = Inr s' \<and> I s' \<and> m s' = m s + sum_list (map w xs)"
  using assms
proof (induction xs arbitrary: s)
  case Nil
  then show ?case by simp
next
  case (Cons x xs)
  from Cons.prems obtain s1 where s1: "body x s = Inr s1" "I s1" "m s1 = m s + w x"
    by (meson list.set_intros(1))
  have "\<exists>s'. for_each xs body s1 = Inr s' \<and> I s' \<and> m s' = m s1 + sum_list (map w xs)"
    using Cons.prems(2) by (intro Cons.IH [OF s1(2)]) simp
  then show ?case
    using s1 by (auto simp: add.assoc)
qed

lemma for_each_inv:
  assumes "I s"
    and "\<And>x s. x \<in> set xs \<Longrightarrow> I s \<Longrightarrow> \<exists>s'. body x s = Inr s' \<and> I s'"
  shows "\<exists>s'. for_each xs body s = Inr s' \<and> I s'"
proof -
  have "\<exists>s'. for_each xs body s = Inr s' \<and> I s'
          \<and> (\<lambda>_. 0 :: nat) s' = (\<lambda>_. 0) s + sum_list (map (\<lambda>_. 0) xs)"
    using assms by (intro for_each_acc) auto
  then show ?thesis by blast
qed

lemma for_each_pairs_gen:
  "length pre = k \<Longrightarrow>
   for_each (enumerate k xs) (\<lambda>(i, c1). for_each (drop (i + 1) (pre @ xs)) (body c1)) s
     = for_each (pairs_after xs) (\<lambda>(c1, c2). body c1 c2) s"
proof (induction xs arbitrary: pre k s)
  case Nil
  show ?case by simp
next
  case (Cons x xs)
  define ys where "ys = pre @ x # xs"
  have ys: "ys = (pre @ [x]) @ xs"
    by (simp add: ys_def)
  have dr: "drop (Suc k) ys = xs"
    using Cons.prems by (simp add: ys_def)
  have "\<And>t. for_each (enumerate (Suc k) xs) (\<lambda>(i, c1). for_each (drop (i + 1) ys) (body c1)) t
             = for_each (pairs_after xs) (\<lambda>(c1, c2). body c1 c2) t"
    unfolding ys using Cons.prems by (intro Cons.IH) simp
  then have ih: "\<And>t. for_each (enumerate (Suc k) xs) (\<lambda>(i, c1). for_each (drop (Suc i) ys) (body c1)) t
             = for_each (pairs_after xs) (\<lambda>(c1, c2). body c1 c2) t"
    by simp
  have "for_each (enumerate k (x # xs)) (\<lambda>(i, c1). for_each (drop (i + 1) ys) (body c1)) s
      = bind (for_each xs (body x) s) (for_each (pairs_after xs) (\<lambda>(c1, c2). body c1 c2))"
    by (cases "for_each xs (body x) s") (simp_all add: ih dr)
  also have "\<dots> = for_each (pairs_after (x # xs)) (\<lambda>(c1, c2). body c1 c2) s"
    by (simp add: for_each_append for_each_map)
  finally show ?case
    unfolding ys_def .
qed

lemma for_each_pairs:
  "for_each (enumerate 0 xs) (\<lambda>(i, c1). for_each (drop (i + 1) xs) (body c1)) s
     = for_each (pairs_after xs) (\<lambda>(c1, c2). body c1 c2) s"
  using for_each_pairs_gen [of "[]" 0 xs body s] by simp

lemma length_pairs_after:
  "real (length (pairs_after xs)) = real (length xs) * (real (length xs) - 1) / 2"
  by (induction xs) (simp_all add: field_simps)

lemma set_pairs_after: "(a, b) \<in> set (pairs_after xs) \<Longrightarrow> a \<in> set xs \<and> b \<in> set xs"
  by (induction xs) auto

subsection \<open>Keys, values and updates of dictionaries\<close>

lemma dict_contains_iff: "dict_contains d k \<longleftrightarrow> k \<in> set (dict_keys d)"
  by (simp add: dict_contains_def dict_keys_def map_of_eq_None_iff)

lemma dict_getitem_present:
  "k \<in> set (dict_keys d) \<Longrightarrow> \<exists>v. dict_getitem d k = Inr v \<and> map_of d k = Some v"
  by (cases "map_of d k") (auto simp: dict_getitem_def dict_keys_def map_of_eq_None_iff)

lemma dict_keys_setitem:
  "k \<in> set (dict_keys d) \<Longrightarrow> dict_keys (dict_setitem d k v) = dict_keys d"
  by (simp add: dict_setitem_def dict_keys_def update_keys)

lemma set_dict_keys_setitem: "set (dict_keys (dict_setitem d k v)) = insert k (set (dict_keys d))"
  by (auto simp: dict_setitem_def dict_keys_def update_keys)

lemma distinct_dict_keys_setitem:
  "distinct (dict_keys d) \<Longrightarrow> distinct (dict_keys (dict_setitem d k v))"
  by (simp add: dict_setitem_def dict_keys_def distinct_update)

lemma map_of_setitem: "map_of (dict_setitem d k v) = (map_of d)(k \<mapsto> v)"
  by (simp add: dict_setitem_def update_conv')

lemma dict_get_setitem:
  "dict_get (dict_setitem d k v) c dflt = (if c = k then v else dict_get d c dflt)"
  by (simp add: dict_get_def map_of_setitem)

lemma sum_values_setitem:
  fixes w :: real
  shows "map_of d k = Some v \<Longrightarrow>
    sum_list (dict_values (dict_setitem d k w)) = sum_list (dict_values d) - v + w"
  by (induction d) (auto simp: dict_values_def dict_setitem_def)

lemma values_setitem:
  "set (dict_values (dict_setitem d k v)) \<subseteq> insert v (set (dict_values d))"
  by (induction d) (auto simp: dict_values_def dict_setitem_def)

lemma dict_comp_foldl:
  fixes f :: "'k \<Rightarrow> 'v"
  defines "build \<equiv> foldl (\<lambda>d k. dict_setitem d k (f k))"
  shows "set (dict_keys (build d0 ks)) = set (dict_keys d0) \<union> set ks"
    and "distinct (dict_keys d0) \<Longrightarrow> distinct (dict_keys (build d0 ks))"
    and "map_of (build d0 ks) k = (if k \<in> set ks then Some (f k) else map_of d0 k)"
    and "set (dict_values (build d0 ks)) \<subseteq> set (dict_values d0) \<union> f ` set ks"
proof -
  show "set (dict_keys (build d0 ks)) = set (dict_keys d0) \<union> set ks"
    unfolding build_def
    by (induction ks arbitrary: d0) (auto simp: set_dict_keys_setitem)
  show "distinct (dict_keys d0) \<Longrightarrow> distinct (dict_keys (build d0 ks))"
    unfolding build_def
    by (induction ks arbitrary: d0) (auto simp: distinct_dict_keys_setitem)
  show "map_of (build d0 ks) k = (if k \<in> set ks then Some (f k) else map_of d0 k)"
    unfolding build_def
    by (induction ks arbitrary: d0) (auto simp: map_of_setitem)
  show "set (dict_values (build d0 ks)) \<subseteq> set (dict_values d0) \<union> f ` set ks"
    unfolding build_def
  proof (induction ks arbitrary: d0)
    case Nil
    show ?case by simp
  next
    case (Cons k ks)
    have "set (dict_values (foldl (\<lambda>d k. dict_setitem d k (f k)) (dict_setitem d0 k (f k)) ks))
        \<subseteq> set (dict_values (dict_setitem d0 k (f k))) \<union> f ` set ks"
      by (rule Cons.IH)
    also have "\<dots> \<subseteq> insert (f k) (set (dict_values d0)) \<union> f ` set ks"
      using values_setitem [of d0 k "f k"] by blast
    finally show ?case by auto
  qed
qed

lemma set_keys_dict_comp [simp]: "set (dict_keys (dict_comp f ks)) = set ks"
  using dict_comp_foldl(1) [of f "[]" ks] by (simp add: dict_comp_def dict_keys_def)

lemma distinct_keys_dict_comp [simp]: "distinct (dict_keys (dict_comp f ks))"
  using dict_comp_foldl(2) [of "[]" f ks] by (simp add: dict_comp_def dict_keys_def)

lemma map_of_dict_comp: "map_of (dict_comp f ks) k = (if k \<in> set ks then Some (f k) else None)"
  using dict_comp_foldl(3) [of f "[]" ks k] by (simp add: dict_comp_def)

lemma set_keys_fromkeys [simp]: "set (dict_keys (fromkeys ks v)) = set ks"
  by (simp add: fromkeys_def)

lemma distinct_keys_fromkeys [simp]: "distinct (dict_keys (fromkeys ks v))"
  by (simp add: fromkeys_def)

lemma map_of_fromkeys: "map_of (fromkeys ks v) k = (if k \<in> set ks then Some v else None)"
  by (simp add: fromkeys_def map_of_dict_comp)

lemma dict_get_fromkeys [simp]: "dict_get (fromkeys ks v) k v = v"
  by (simp add: dict_get_def map_of_fromkeys)

lemma sum_list_all_zero:
  fixes xs :: "real list"
  shows "\<forall>v \<in> set xs. v = 0 \<Longrightarrow> sum_list xs = 0"
  by (induction xs) auto

lemma sum_values_fromkeys [simp]: "sum_list (dict_values (fromkeys ks (0 :: real))) = 0"
proof -
  have "set (dict_values (fromkeys ks (0 :: real))) \<subseteq> {0}"
    using dict_comp_foldl(4) [of "\<lambda>_. 0 :: real" "[]" ks]
    by (auto simp: fromkeys_def dict_comp_def dict_values_def)
  then have "\<forall>v \<in> set (dict_values (fromkeys ks (0 :: real))). v = 0"
    by auto
  then show ?thesis
    by (rule sum_list_all_zero)
qed

lemma dict_iadd_value:
  assumes "k \<in> set (dict_keys d)"
  shows "\<exists>d'. dict_iadd d k x = Inr d' \<and> dict_keys d' = dict_keys d
           \<and> dict_get d' c 0 = dict_get d c 0 + (if k = c then x else 0)"
proof -
  from dict_getitem_present [OF assms] obtain v
    where v: "dict_getitem d k = Inr v" "map_of d k = Some v"
    by blast
  moreover have "dict_get d k 0 = v"
    using v by (simp add: dict_get_def)
  ultimately show ?thesis
    using assms by (auto simp: dict_iadd_def dict_keys_setitem dict_get_setitem)
qed

lemma dict_iadd_total:
  assumes "k \<in> set (dict_keys d)"
  shows "\<exists>d'. dict_iadd d k x = Inr d' \<and> dict_keys d' = dict_keys d
           \<and> sum_list (dict_values d') = sum_list (dict_values d) + x"
proof -
  from dict_getitem_present [OF assms] obtain v
    where v: "dict_getitem d k = Inr v" "map_of d k = Some v"
    by blast
  then show ?thesis
    using assms by (auto simp: dict_iadd_def dict_keys_setitem sum_values_setitem)
qed

subsection \<open>Positional scoring: Borda and weighted Borda\<close>

text \<open>
  Both loops add \<open>g ranking position\<close> to the entry of \<open>candidate_id\<close> when it is a key.
  A quantity \<open>m\<close> of the score map that each such addition moves by the added value
  (for the keys selected by \<open>sel\<close>) is moved by the sum of all of them.
\<close>

lemma positional_loop:
  fixes g :: "Ranking \<Rightarrow> nat \<Rightarrow> real" and m :: "(string, real) dict \<Rightarrow> real"
  assumes step: "\<And>s x v. dict_keys s = K \<Longrightarrow> x \<in> set K \<Longrightarrow>
      \<exists>s'. dict_iadd s x v = Inr s' \<and> dict_keys s' = K \<and> m s' = m s + (if sel x then v else 0)"
    and keys: "dict_keys s = K"
  shows "\<exists>d. for_each rs (\<lambda>ranking.
            for_each (enumerate 0 (rankings ranking)) (\<lambda>(position, candidate_id) scores.
              if dict_contains scores candidate_id
              then dict_iadd scores candidate_id (g ranking position)
              else Inr scores)) s = Inr d
          \<and> dict_keys d = K
          \<and> m d = m s + (\<Sum>r\<leftarrow>rs. sum_list (map (\<lambda>(p, x). if x \<in> set K \<and> sel x then g r p else 0)
                                       (enumerate 0 (rankings r))))"
proof (rule for_each_acc [where I = "\<lambda>s. dict_keys s = K"])
  show "dict_keys s = K" by (rule keys)
next
  fix r :: Ranking and s :: "(string, real) dict"
  assume s: "dict_keys s = K"
  show "\<exists>s'. for_each (enumerate 0 (rankings r)) (\<lambda>(position, candidate_id) scores.
              if dict_contains scores candidate_id
              then dict_iadd scores candidate_id (g r position)
              else Inr scores) s = Inr s'
          \<and> dict_keys s' = K
          \<and> m s' = m s + sum_list (map (\<lambda>(p, x). if x \<in> set K \<and> sel x then g r p else 0)
                                    (enumerate 0 (rankings r)))"
  proof (rule for_each_acc [where I = "\<lambda>s. dict_keys s = K"])
    show "dict_keys s = K" by (rule s)
  next
    fix px :: "nat \<times> string" and t :: "(string, real) dict"
    assume t: "dict_keys t = K"
    obtain p x where px: "px = (p, x)"
      by (cases px)
    show "\<exists>s'. (case px of (position, candidate_id) \<Rightarrow> \<lambda>scores.
              if dict_contains scores candidate_id
              then dict_iadd scores candidate_id (g r position)
              else Inr scores) t = Inr s'
          \<and> dict_keys s' = K
          \<and> m s' = m t + (case px of (p, x) \<Rightarrow> if x \<in> set K \<and> sel x then g r p else 0)"
    proof (cases "x \<in> set K")
      case True
      with step [OF t True, of "g r p"] t show ?thesis
        by (simp add: px dict_contains_iff)
    next
      case False
      with t show ?thesis
        by (simp add: px dict_contains_iff)
    qed
  qed
qed

lemma sum_enumerate_members:
  fixes f :: "nat \<Rightarrow> real"
  shows "\<forall>x \<in> set xs. P x \<Longrightarrow>
    sum_list (map (\<lambda>(p, x). if P x then f p else 0) (enumerate k xs))
      = sum_list (map f [k..<k + length xs])"
proof (induction xs arbitrary: k)
  case Nil
  show ?case by simp
next
  case (Cons x xs)
  have "[k..<k + length (x # xs)] = k # [Suc k..<Suc k + length xs]"
    using upt_conv_Cons [of k "k + length (x # xs)"] by simp
  with Cons show ?case
    by simp
qed

lemma sum_descending:
  "sum_list (map (\<lambda>p. c - real p) [0..<k]) = real k * c - real k * (real k - 1) / 2"
  by (induction k) (simp_all add: field_simps)

lemma borda_points_full:
  assumes "distinct order" and "set order = set candidates" and "distinct candidates"
  shows "sum_list (map (\<lambda>(p, x). if x \<in> set candidates \<and> True
                          then of_int (int (length candidates) - 1 - int p) else 0)
           (enumerate 0 order))
     = real (length candidates) * (real (length candidates) - 1) / 2"
proof -
  let ?n = "length candidates"
  have len: "length order = ?n"
    using assms by (metis distinct_card)
  have "sum_list (map (\<lambda>(p, x). if x \<in> set candidates \<and> True
                          then real_of_int (int ?n - 1 - int p) else 0) (enumerate 0 order))
      = sum_list (map (\<lambda>p. real_of_int (int ?n - 1 - int p)) [0..<0 + length order])"
    using assms(2) by (intro sum_enumerate_members) simp
  also have "\<dots> = sum_list (map (\<lambda>p. (real ?n - 1) - real p) [0..<?n])"
    by (simp add: len)
  also have "\<dots> = real ?n * (real ?n - 1) - real ?n * (real ?n - 1) / 2"
    by (rule sum_descending)
  finally show ?thesis
    by simp
qed

lemma sum_list_const:
  fixes k :: real
  shows "\<forall>x \<in> set xs. f x = k \<Longrightarrow> sum_list (map f xs) = real (length xs) * k"
  by (induction xs) (simp_all add: algebra_simps)

text \<open>
  Claim C3.  When the candidates are distinct and the order of every ranking holds
  exactly the candidates, each once, \<open>borda_count\<close> returns a score map whose values sum
  to \<open>numPreferences * (n * (n - 1) / 2)\<close>, \<open>n\<close> the number of candidates.
\<close>

theorem borda_total_invariant:
  assumes "distinct candidates"
    and "\<forall>r \<in> set rs. distinct (rankings r) \<and> set (rankings r) = set candidates"
  shows "\<exists>scores. borda_count rs candidates = Inr scores
           \<and> sum_list (dict_values scores)
               = real (length rs) * (real (length candidates) * (real (length candidates) - 1) / 2)"
proof -
  let ?K = "dict_keys (fromkeys candidates (0 :: real))"
  let ?g = "\<lambda>(r :: Ranking) p. real_of_int (int (length candidates) - 1 - int p)"
  let ?w = "\<lambda>r. sum_list (map (\<lambda>(p, x). if x \<in> set ?K \<and> True then ?g r p else 0)
                     (enumerate 0 (rankings r)))"
  have "\<exists>d. for_each rs (\<lambda>ranking.
            for_each (enumerate 0 (rankings ranking)) (\<lambda>(position, candidate_id) scores.
              if dict_contains scores candidate_id
              then dict_iadd scores candidate_id (?g ranking position)
              else Inr scores)) (fromkeys candidates 0) = Inr d
          \<and> dict_keys d = ?K
          \<and> sum_list (dict_values d) = sum_list (dict_values (fromkeys candidates (0 :: real)))
               + (\<Sum>r\<leftarrow>rs. ?w r)"
  proof (rule positional_loop [where sel = "\<lambda>_. True"])
    fix s :: "(string, real) dict" and x v
    assume "dict_keys s = ?K" and "x \<in> set ?K"
    then show "\<exists>s'. dict_iadd s x v = Inr s' \<and> dict_keys s' = ?K
        \<and> sum_list (dict_values s') = sum_list (dict_values s) + (if True then v else 0)"
      using dict_iadd_total [of x s v] by simp
  qed simp
  then obtain d where d: "borda_count rs candidates = Inr d"
    and total: "sum_list (dict_values d) = (\<Sum>r\<leftarrow>rs. ?w r)"
    by (auto simp: borda_count_def)
  have "\<forall>r \<in> set rs. ?w r = real (length candidates) * (real (length candidates) - 1) / 2"
  proof
    fix r assume "r \<in> set rs"
    then have "distinct (rankings r)" and "set (rankings r) = set candidates"
      using assms(2) by auto
    from borda_points_full [OF this assms(1)]
    show "?w r = real (length candidates) * (real (length candidates) - 1) / 2"
      by simp
  qed
  then have "(\<Sum>r\<leftarrow>rs. ?w r)
      = real (length rs) * (real (length candidates) * (real (length candidates) - 1) / 2)"
    by (rule sum_list_const)
  with d total show ?thesis
    by simp
qed

theorem borda_total_invariant_witness:
  "distinct [''r1'', ''r2'', ''r3'']
   \<and> list_all (\<lambda>r. distinct (rankings r) \<and> set (rankings r) = set [''r1'', ''r2'', ''r3''])
        example_rankings
   \<and> (\<exists>scores. borda_count example_rankings [''r1'', ''r2'', ''r3''] = Inr scores
         \<and> sum_list (dict_values scores) = 9)"
proof -
  have h1: "distinct [''r1'', ''r2'', ''r3'']"
    by simp
  have h2: "\<forall>r \<in> set example_rankings.
      distinct (rankings r) \<and> set (rankings r) = set [''r1'', ''r2'', ''r3'']"
    by (auto simp: example_rankings_def)
  have len: "length example_rankings = 3"
    by (simp add: example_rankings_def)
  from borda_total_invariant [OF h1 h2] h1 h2 show ?thesis
    by (simp add: list_all_iff len)
qed

lemma for_each_cong:
  "(\<And>x s. x \<in> set xs \<Longrightarrow> body x s = body' x s) \<Longrightarrow> for_each xs body s = for_each xs body' s"
proof (induction xs arbitrary: s)
  case Nil
  show ?case by simp
next
  case (Cons x xs)
  then show ?case
    by (cases "body' x s") simp_all
qed

lemma positional_value:
  fixes g :: "Ranking \<Rightarrow> nat \<Rightarrow> real"
  shows "\<exists>d. for_each rs (\<lambda>ranking.
            for_each (enumerate 0 (rankings ranking)) (\<lambda>(position, candidate_id) scores.
              if dict_contains scores candidate_id
              then dict_iadd scores candidate_id (g ranking position)
              else Inr scores)) (fromkeys candidates 0) = Inr d
          \<and> dict_keys d = dict_keys (fromkeys candidates (0 :: real))
          \<and> dict_get d c 0
              = (\<Sum>r\<leftarrow>rs. sum_list (map (\<lambda>(p, x). if x \<in> set candidates \<and> x = c then g r p else 0)
                                  (enumerate 0 (rankings r))))"
proof -
  let ?K = "dict_keys (fromkeys candidates (0 :: real))"
  have "\<exists>d. for_each rs (\<lambda>ranking.
            for_each (enumerate 0 (rankings ranking)) (\<lambda>(position, candidate_id) scores.
              if dict_contains scores candidate_id
              then dict_iadd scores candidate_id (g ranking position)
              else Inr scores)) (fromkeys candidates 0) = Inr d
          \<and> dict_keys d = ?K
          \<and> dict_get d c 0 = dict_get (fromkeys candidates (0 :: real)) c 0
              + (\<Sum>r\<leftarrow>rs. sum_list (map (\<lambda>(p, x). if x \<in> set ?K \<and> x = c then g r p else 0)
                                  (enumerate 0 (rankings r))))"
  proof (rule positional_loop [where sel = "\<lambda>x. x = c"])
    fix s :: "(string, real) dict" and x v
    assume "dict_keys s = ?K" and "x \<in> set ?K"
    then show "\<exists>s'. dict_iadd s x v = Inr s' \<and> dict_keys s' = ?K
        \<and> dict_get s' c 0 = dict_get s c 0 + (if x = c then v else 0)"
      using dict_iadd_value [of x s v c] by simp
  qed simp
  then show ?thesis
    by simp
qed

lemma borda_count_value:
  "\<exists>d. borda_count rs candidates = Inr d
     \<and> dict_keys d = dict_keys (fromkeys candidates (0 :: real))
     \<and> dict_get d c 0
         = (\<Sum>r\<leftarrow>rs. sum_list (map (\<lambda>(p, x). if x \<in> set candidates \<and> x = c
                                       then of_int (int (length candidates) - 1 - int p) else 0)
                             (enumerate 0 (rankings r))))"
  unfolding borda_count_def Let_def
  by (rule positional_value)

lemma weighted_borda_value:
  "\<exists>d. weighted_borda rs candidates = Inr d
     \<and> dict_keys d = dict_keys (fromkeys candidates (0 :: real))
     \<and> dict_get d c 0
         = (\<Sum>r\<leftarrow>rs. sum_list (map (\<lambda>(p, x). if x \<in> set candidates \<and> x = c
                                       then of_int (int (length candidates) - 1 - int p) * confidence r
                                       else 0)
                             (enumerate 0 (rankings r))))"
  unfolding weighted_borda_def Let_def
  by (rule positional_value)

lemma sum_list_scaled:
  fixes k :: real
  shows "sum_list (map (\<lambda>(p, x). if P x then f p * k else 0) xs)
       = k * sum_list (map (\<lambda>(p, x). if P x then f p else 0) xs)"
  by (induction xs) (auto simp: algebra_simps)

text \<open>
  Claim C9.  (1) When every confidence is \<open>1\<close>, \<open>weighted_borda\<close> and \<open>borda_count\<close>
  return the same score map.  (2) Both always return a score map, over the same keys in
  the same order.  (3) For every candidate \<open>c\<close>, the weighted score is the sum over the
  preferences \<open>r\<close> of \<open>confidence r\<close> times the score that \<open>borda_count\<close> gives \<open>c\<close> on \<open>r\<close>
  alone, whatever the confidences are; and the Borda score itself is the sum of those
  single-preference scores.
\<close>

theorem weighted_borda_refines_borda:
  "((\<forall>r \<in> set rs. confidence r = 1) \<longrightarrow> weighted_borda rs candidates = borda_count rs candidates)
   \<and> (\<exists>w b. weighted_borda rs candidates = Inr w \<and> borda_count rs candidates = Inr b
         \<and> dict_keys w = dict_keys b)
   \<and> score_of (weighted_borda rs candidates) c
       = (\<Sum>r\<leftarrow>rs. confidence r * score_of (borda_count [r] candidates) c)
   \<and> score_of (borda_count rs candidates) c
       = (\<Sum>r\<leftarrow>rs. score_of (borda_count [r] candidates) c)"
proof -
  let ?pts = "\<lambda>r. sum_list (map (\<lambda>(p, x). if x \<in> set candidates \<and> x = c
                                  then real_of_int (int (length candidates) - 1 - int p) else 0)
                        (enumerate 0 (rankings r)))"
  have single: "score_of (borda_count [r] candidates) c = ?pts r" for r
    using borda_count_value [of "[r]" candidates c] by (auto simp: score_of_def)
  have borda: "score_of (borda_count rs candidates) c = (\<Sum>r\<leftarrow>rs. ?pts r)"
    using borda_count_value [of rs candidates c] by (auto simp: score_of_def)
  have "score_of (weighted_borda rs candidates) c
      = (\<Sum>r\<leftarrow>rs. sum_list (map (\<lambda>(p, x). if x \<in> set candidates \<and> x = c
                                    then real_of_int (int (length candidates) - 1 - int p) * confidence r
                                    else 0)
                          (enumerate 0 (rankings r))))"
    using weighted_borda_value [of rs candidates c] by (auto simp: score_of_def)
  also have "\<dots> = (\<Sum>r\<leftarrow>rs. confidence r * ?pts r)"
    by (simp only: sum_list_scaled)
  finally have weighted: "score_of (weighted_borda rs candidates) c
      = (\<Sum>r\<leftarrow>rs. confidence r * ?pts r)" .
  have same: "weighted_borda rs candidates = borda_count rs candidates"
    if "\<forall>r \<in> set rs. confidence r = 1"
    unfolding weighted_borda_def borda_count_def Let_def
  proof (rule for_each_cong)
    fix r :: Ranking and s :: "(string, real) dict"
    assume "r \<in> set rs"
    with that have "confidence r = 1"
      by simp
    then show "for_each (enumerate 0 (rankings r)) (\<lambda>(position, candidate_id) scores.
          if dict_contains scores candidate_id
          then dict_iadd scores candidate_id
                 (real_of_int (int (length candidates) - 1 - int position) * confidence r)
          else Inr scores) s
      = for_each (enumerate 0 (rankings r)) (\<lambda>(position, candidate_id) scores.
          if dict_contains scores candidate_id
          then dict_iadd scores candidate_id
                 (real_of_int (int (length candidates) - 1 - int position))
          else Inr scores) s"
      by (simp cong: if_cong)
  qed
  have keys: "\<exists>w b. weighted_borda rs candidates = Inr w \<and> borda_count rs candidates = Inr b
         \<and> dict_keys w = dict_keys b"
    using weighted_borda_value [of rs candidates c] borda_count_value [of rs candidates c]
    by auto
  show ?thesis
    using same keys weighted borda by (simp add: single)
qed

theorem weighted_borda_refines_borda_witness:
  "list_all (\<lambda>r. confidence r = 1) example_rankings
   \<and> weighted_borda example_rankings [''r1'', ''r2'', ''r3'']
       = borda_count example_rankings [''r1'', ''r2'', ''r3'']
   \<and> score_of (weighted_borda weighted_rankings [''r1'', ''r2'']) ''r1''
       = (\<Sum>r\<leftarrow>weighted_rankings. confidence r * score_of (borda_count [r] [''r1'', ''r2'']) ''r1'')
   \<and> score_of (weighted_borda weighted_rankings [''r1'', ''r2'']) ''r1'' = - 2"
proof -
  have h: "\<forall>r \<in> set example_rankings. confidence r = 1"
    by (simp add: example_rankings_def)
  have v: "score_of (weighted_borda weighted_rankings [''r1'', ''r2'']) ''r1'' = - 2"
    by code_simp
  from weighted_borda_refines_borda [of example_rankings "[''r1'', ''r2'', ''r3'']" "''r1''"]
    weighted_borda_refines_borda [of weighted_rankings "[''r1'', ''r2'']" "''r1''"] h v
  show ?thesis
    by (simp add: list_all_iff)
qed

subsection \<open>Pairwise comparison and Copeland\<close>

lemma count_pairwise_loop:
  "for_each rs (\<lambda>ranking (c1_preferred, c2_preferred).
       if c1 \<in> set (rankings ranking) \<and> c2 \<in> set (rankings ranking) then
         bind (list_index (rankings ranking) c1) (\<lambda>pos1.
         bind (list_index (rankings ranking) c2) (\<lambda>pos2.
           if pos1 < pos2 then Inr (c1_preferred + 1, c2_preferred)
           else if pos2 < pos1 then Inr (c1_preferred, c2_preferred + 1)
           else Inr (c1_preferred, c2_preferred)))
       else Inr (c1_preferred, c2_preferred))
     (a, b)
   = Inr (a + prefer_count rs c1 c2, b + prefer_count rs c2 c1)"
proof (induction rs arbitrary: a b)
  case Nil
  show ?case by (simp add: prefer_count_def)
next
  case (Cons r rs)
  have step: "prefer_count (r # rs) x y = (if placed_before r x y then 1 else 0) + prefer_count rs x y"
    for x y
    by (simp add: prefer_count_def)
  show ?case
    by (simp add: Cons.IH step list_index_def placed_before_def)
qed

lemma count_pairwise_preferences_eq:
  "count_pairwise_preferences rs c1 c2 = Inr (prefer_count rs c1 c2, prefer_count rs c2 c1)"
  unfolding count_pairwise_preferences_def
  using count_pairwise_loop [of rs c1 c2 0 0] by simp

lemma prefer_count_exclusive: "prefer_count rs a b + prefer_count rs b a \<le> int (length rs)"
proof (induction rs)
  case Nil
  show ?case by (simp add: prefer_count_def)
next
  case (Cons r rs)
  have "\<not> (placed_before r a b \<and> placed_before r b a)"
    by (auto simp: placed_before_def)
  with Cons show ?case
    by (auto simp: prefer_count_def)
qed

lemma prefer_count_unmentioned:
  "\<forall>r \<in> set rs. c \<notin> set (rankings r) \<Longrightarrow> prefer_count rs c d = 0 \<and> prefer_count rs d c = 0"
  by (induction rs) (auto simp: prefer_count_def placed_before_def)

lemma duel_le_1: "duel rs c d \<le> 1"
  by (simp add: duel_def)

lemma duel_sum: "duel rs c d + duel rs d c = 1"
  by (simp add: duel_def)

lemma duel_win: "prefer_count rs c d > prefer_count rs d c \<Longrightarrow> duel rs c d = 1"
  by (simp add: duel_def)

lemma duel_majority: "2 * prefer_count rs c d > int (length rs) \<Longrightarrow> duel rs c d = 1"
  using prefer_count_exclusive [of rs c d] by (intro duel_win) linarith

lemma award_measure:
  fixes m :: "(string, real) dict \<Rightarrow> real"
  assumes step: "\<And>s x v. dict_keys s = K \<Longrightarrow> x \<in> set K \<Longrightarrow>
      \<exists>s'. dict_iadd s x v = Inr s' \<and> dict_keys s' = K \<and> m s' = m s + (if sel x then v else 0)"
    and keys: "dict_keys wins = K" and c1: "c1 \<in> set K" and c2: "c2 \<in> set K"
  shows "\<exists>wins'. award_pairwise_points wins c1 c2 (prefer_count rs c1 c2) (prefer_count rs c2 c1)
            = Inr wins'
          \<and> dict_keys wins' = K
          \<and> m wins' = m wins + ((if sel c1 then duel rs c1 c2 else 0)
                                + (if sel c2 then duel rs c2 c1 else 0))"
proof -
  consider (first) "prefer_count rs c1 c2 > prefer_count rs c2 c1"
    | (second) "prefer_count rs c2 c1 > prefer_count rs c1 c2"
    | (tie) "prefer_count rs c1 c2 = prefer_count rs c2 c1"
    by linarith
  then show ?thesis
  proof cases
    case first
    with step [OF keys c1, of 1] show ?thesis
      by (auto simp: award_pairwise_points_def duel_def)
  next
    case second
    with step [OF keys c2, of 1] show ?thesis
      by (auto simp: award_pairwise_points_def duel_def)
  next
    case tie
    from step [OF keys c1, of "1 / 2"] obtain w1
      where w1: "dict_iadd wins c1 (1 / 2) = Inr w1" "dict_keys w1 = K"
        "m w1 = m wins + (if sel c1 then 1 / 2 else 0)"
      by blast
    from step [OF w1(2) c2, of "1 / 2"] obtain w2
      where w2: "dict_iadd w1 c2 (1 / 2) = Inr w2" "dict_keys w2 = K"
        "m w2 = m w1 + (if sel c2 then 1 / 2 else 0)"
      by blast
    from tie w1 w2 show ?thesis
      by (simp add: award_pairwise_points_def duel_def)
  qed
qed

lemma copeland_measure:
  fixes m :: "(string, real) dict \<Rightarrow> real"
  assumes step: "\<And>s x v. dict_keys s = dict_keys (fromkeys candidates (0 :: real)) \<Longrightarrow>
      x \<in> set candidates \<Longrightarrow>
      \<exists>s'. dict_iadd s x v = Inr s' \<and> dict_keys s' = dict_keys (fromkeys candidates (0 :: real))
         \<and> m s' = m s + (if sel x then v else 0)"
  shows "\<exists>wins. copeland_score rs candidates = Inr wins
          \<and> dict_keys wins = dict_keys (fromkeys candidates (0 :: real))
          \<and> m wins = m (fromkeys candidates 0)
              + sum_list (map (\<lambda>(c1, c2). (if sel c1 then duel rs c1 c2 else 0)
                                         + (if sel c2 then duel rs c2 c1 else 0))
                         (pairs_after candidates))"
  unfolding copeland_score_def for_each_pairs
proof (rule for_each_acc [where I = "\<lambda>s. dict_keys s = dict_keys (fromkeys candidates (0 :: real))"])
  show "dict_keys (fromkeys candidates (0 :: real)) = dict_keys (fromkeys candidates (0 :: real))"
    by simp
next
  fix pr :: "string \<times> string" and wins :: "(string, real) dict"
  assume pr: "pr \<in> set (pairs_after candidates)"
    and keys: "dict_keys wins = dict_keys (fromkeys candidates (0 :: real))"
  obtain c1 c2 where eq: "pr = (c1, c2)"
    by (cases pr)
  from pr eq have mem: "c1 \<in> set (dict_keys (fromkeys candidates (0 :: real)))"
      "c2 \<in> set (dict_keys (fromkeys candidates (0 :: real)))"
    by (auto dest: set_pairs_after)
  have "\<exists>wins'. award_pairwise_points wins c1 c2 (prefer_count rs c1 c2) (prefer_count rs c2 c1)
            = Inr wins'
          \<and> dict_keys wins' = dict_keys (fromkeys candidates (0 :: real))
          \<and> m wins' = m wins + ((if sel c1 then duel rs c1 c2 else 0)
                                + (if sel c2 then duel rs c2 c1 else 0))"
    using step keys mem by (intro award_measure) auto
  then show "\<exists>s'. (case pr of (c1, c2) \<Rightarrow> \<lambda>wins.
              bind (count_pairwise_preferences rs c1 c2) (\<lambda>(c1_preferred, c2_preferred).
                award_pairwise_points wins c1 c2 c1_preferred c2_preferred)) wins = Inr s'
          \<and> dict_keys s' = dict_keys (fromkeys candidates (0 :: real))
          \<and> m s' = m wins + (case pr of (c1, c2) \<Rightarrow>
                (if sel c1 then duel rs c1 c2 else 0) + (if sel c2 then duel rs c2 c1 else 0))"
    by (simp add: eq count_pairwise_preferences_eq)
qed

lemma copeland_value:
  "\<exists>wins. copeland_score rs candidates = Inr wins
     \<and> dict_keys wins = dict_keys (fromkeys candidates (0 :: real))
     \<and> dict_get wins c 0
         = sum_list (map (\<lambda>(c1, c2). (if c1 = c then duel rs c1 c2 else 0)
                                    + (if c2 = c then duel rs c2 c1 else 0))
                    (pairs_after candidates))"
proof -
  have "\<exists>wins. copeland_score rs candidates = Inr wins
     \<and> dict_keys wins = dict_keys (fromkeys candidates (0 :: real))
     \<and> dict_get wins c 0 = dict_get (fromkeys candidates (0 :: real)) c 0
         + sum_list (map (\<lambda>(c1, c2). (if c1 = c then duel rs c1 c2 else 0)
                                    + (if c2 = c then duel rs c2 c1 else 0))
                    (pairs_after candidates))"
  proof (rule copeland_measure [where sel = "\<lambda>x. x = c"])
    fix s :: "(string, real) dict" and x v
    assume "dict_keys s = dict_keys (fromkeys candidates (0 :: real))" and "x \<in> set candidates"
    then show "\<exists>s'. dict_iadd s x v = Inr s'
        \<and> dict_keys s' = dict_keys (fromkeys candidates (0 :: real))
        \<and> dict_get s' c 0 = dict_get s c 0 + (if x = c then v else 0)"
      using dict_iadd_value [of x s v c] by simp
  qed
  then show ?thesis
    by simp
qed

lemma copeland_sum:
  "\<exists>wins. copeland_score rs candidates = Inr wins
     \<and> dict_keys wins = dict_keys (fromkeys candidates (0 :: real))
     \<and> sum_list (dict_values wins) = real (length (pairs_after candidates))"
proof -
  have "\<exists>wins. copeland_score rs candidates = Inr wins
     \<and> dict_keys wins = dict_keys (fromkeys candidates (0 :: real))
     \<and> sum_list (dict_values wins) = sum_list (dict_values (fromkeys candidates (0 :: real)))
         + sum_list (map (\<lambda>(c1, c2). (if True then duel rs c1 c2 else 0)
                                    + (if True then duel rs c2 c1 else 0))
                    (pairs_after candidates))"
  proof (rule copeland_measure [where sel = "\<lambda>x. True"])
    fix s :: "(string, real) dict" and x v
    assume "dict_keys s = dict_keys (fromkeys candidates (0 :: real))" and "x \<in> set candidates"
    then show "\<exists>s'. dict_iadd s x v = Inr s'
        \<and> dict_keys s' = dict_keys (fromkeys candidates (0 :: real))
        \<and> sum_list (dict_values s') = sum_list (dict_values s) + (if True then v else 0)"
      using dict_iadd_total [of x s v] by simp
  qed
  moreover have "sum_list (map (\<lambda>(c1, c2). duel rs c1 c2 + duel rs c2 c1) ps) = real (length ps)"
    for ps
    by (induction ps) (auto simp: duel_sum)
  ultimately show ?thesis
    by simp
qed

lemma sum_list_single:
  fixes g :: "'a \<Rightarrow> real"
  shows "distinct xs \<Longrightarrow>
    sum_list (map (\<lambda>b. if b = c then g b else 0) xs) = (if c \<in> set xs then g c else 0)"
  by (induction xs) auto

lemma sum_pairs_after_distinct:
  fixes f :: "'a \<Rightarrow> 'a \<Rightarrow> real"
  shows "distinct xs \<Longrightarrow>
    sum_list (map (\<lambda>(a, b). (if a = c then f a b else 0) + (if b = c then f b a else 0))
       (pairs_after xs))
    = (if c \<in> set xs then sum_list (map (f c) (filter (\<lambda>d. d \<noteq> c) xs)) else 0)"
proof (induction xs)
  case Nil
  show ?case by simp
next
  case (Cons x xs)
  have row: "sum_list (map (\<lambda>(a, b). (if a = c then f a b else 0) + (if b = c then f b a else 0))
                  (map (Pair x) xs))
      = (if x = c then sum_list (map (f c) xs) else if c \<in> set xs then f c x else 0)"
  proof (cases "x = c")
    case True
    then have "c \<notin> set xs"
      using Cons.prems by simp
    then have "sum_list (map (\<lambda>b. f c b + (if b = c then f b c else 0)) xs) = sum_list (map (f c) xs)"
      by (intro arg_cong [where f = sum_list] map_cong) auto
    with True show ?thesis
      by (simp add: comp_def)
  next
    case False
    have "sum_list (map (\<lambda>b. if b = c then f b x else 0) xs) = (if c \<in> set xs then f c x else 0)"
      using Cons.prems by (intro sum_list_single) simp
    with False show ?thesis
      by (simp add: comp_def)
  qed
  have keep: "x = c \<Longrightarrow> filter (\<lambda>d. d \<noteq> c) xs = xs"
    using Cons.prems by (auto intro: filter_True)
  show ?case
    using Cons.IH Cons.prems row keep by auto
qed

lemma length_filter_other:
  "distinct xs \<Longrightarrow> c \<in> set xs \<Longrightarrow> real (length (filter (\<lambda>d. d \<noteq> c) xs)) = real (length xs) - 1"
proof (induction xs)
  case Nil
  then show ?case by simp
next
  case (Cons x xs)
  show ?case
  proof (cases "x = c")
    case True
    then have "filter (\<lambda>d. d \<noteq> c) xs = xs"
      using Cons.prems by (auto intro: filter_True)
    with True show ?thesis by simp
  next
    case False
    with Cons show ?thesis by simp
  qed
qed

lemma sum_list_le_length:
  fixes g :: "'a \<Rightarrow> real"
  shows "\<forall>x \<in> set xs. g x \<le> 1 \<Longrightarrow> sum_list (map g xs) \<le> real (length xs)"
  by (induction xs) auto

lemma sum_list_eq_length:
  fixes g :: "'a \<Rightarrow> real"
  shows "\<forall>x \<in> set xs. g x = 1 \<Longrightarrow> sum_list (map g xs) = real (length xs)"
  by (induction xs) auto

lemma dict_value_has_key:
  "v \<in> set (dict_values d) \<Longrightarrow> distinct (dict_keys d) \<Longrightarrow>
     \<exists>k \<in> set (dict_keys d). dict_get d k dflt = v"
proof -
  assume "v \<in> set (dict_values d)" and d: "distinct (dict_keys d)"
  then obtain k where k: "(k, v) \<in> set d"
    by (auto simp: dict_values_def)
  with d have "map_of d k = Some v"
    by (simp add: dict_keys_def)
  with k show ?thesis
    by (force simp: dict_get_def dict_keys_def)
qed

lemma copeland_duels:
  assumes "distinct candidates" and "c \<in> set candidates"
  shows "\<exists>wins. copeland_score rs candidates = Inr wins
     \<and> dict_keys wins = dict_keys (fromkeys candidates (0 :: real))
     \<and> dict_get wins c 0 = (\<Sum>d\<leftarrow>filter (\<lambda>d. d \<noteq> c) candidates. duel rs c d)"
  using copeland_value [of rs candidates c] assms
  by (simp add: sum_pairs_after_distinct)

lemma award_tie:
  assumes "c1 \<in> set (dict_keys w)" and "c2 \<in> set (dict_keys w)" and "c1 \<noteq> c2"
  shows "\<exists>w'. award_pairwise_points w c1 c2 a a = Inr w'
           \<and> dict_get w' c1 0 = dict_get w c1 0 + 1 / 2
           \<and> dict_get w' c2 0 = dict_get w c2 0 + 1 / 2"
proof -
  from dict_iadd_value [OF assms(1), of "1 / 2" c1] dict_iadd_value [OF assms(1), of "1 / 2" c2]
  obtain w1 where w1: "dict_iadd w c1 (1 / 2) = Inr w1" "dict_keys w1 = dict_keys w"
      "dict_get w1 c1 0 = dict_get w c1 0 + 1 / 2" "dict_get w1 c2 0 = dict_get w c2 0"
    using assms(3) by auto
  have c2: "c2 \<in> set (dict_keys w1)"
    using assms(2) w1(2) by simp
  from dict_iadd_value [OF c2, of "1 / 2" c1] dict_iadd_value [OF c2, of "1 / 2" c2]
  obtain w2 where w2: "dict_iadd w1 c2 (1 / 2) = Inr w2"
      "dict_get w2 c1 0 = dict_get w1 c1 0" "dict_get w2 c2 0 = dict_get w1 c2 0 + 1 / 2"
    using assms(3) by auto
  with w1 show ?thesis
    by (simp add: award_pairwise_points_def)
qed

text \<open>
  Claim C4.  Over a duplicate-free candidate list of size \<open>n\<close>, \<open>copeland_score\<close> returns a
  score map over the candidates in which no value exceeds \<open>n - 1\<close>.  The score of a
  candidate \<open>c\<close> is the sum of its duels with every other candidate, and
  \<open>award_pairwise_points\<close> on equal counts (\<open>0\<close>-\<open>0\<close> included) adds one half to both
  sides.  A candidate that a strict majority of the
  preferences places strictly before each other candidate scores exactly \<open>n - 1\<close>, and so
  does one that wins every pairwise comparison.
\<close>

theorem copeland_bound:
  assumes "distinct candidates"
  shows "\<exists>wins. copeland_score rs candidates = Inr wins
     \<and> set (dict_keys wins) = set candidates
     \<and> (\<forall>v \<in> set (dict_values wins). v \<le> real (length candidates) - 1)
     \<and> (\<forall>c \<in> set candidates.
          dict_get wins c 0 = (\<Sum>d\<leftarrow>filter (\<lambda>d. d \<noteq> c) candidates. duel rs c d))
     \<and> (\<forall>c \<in> set candidates.
          (\<forall>d \<in> set candidates. d \<noteq> c \<longrightarrow> 2 * prefer_count rs c d > int (length rs))
          \<longrightarrow> dict_get wins c 0 = real (length candidates) - 1)
     \<and> (\<forall>c \<in> set candidates.
          (\<forall>d \<in> set candidates. d \<noteq> c \<longrightarrow> prefer_count rs c d > prefer_count rs d c)
          \<longrightarrow> dict_get wins c 0 = real (length candidates) - 1)
     \<and> (\<forall>w c1 c2 a. c1 \<in> set (dict_keys w) \<and> c2 \<in> set (dict_keys w) \<and> c1 \<noteq> c2 \<longrightarrow>
          (\<exists>w'. award_pairwise_points w c1 c2 a a = Inr w'
             \<and> dict_get w' c1 0 = dict_get w c1 0 + 1 / 2
             \<and> dict_get w' c2 0 = dict_get w c2 0 + 1 / 2))"
proof -
  let ?n = "real (length candidates)"
  let ?others = "\<lambda>c. filter (\<lambda>d. d \<noteq> c) candidates"
  obtain wins where wins: "copeland_score rs candidates = Inr wins"
    and keys: "dict_keys wins = dict_keys (fromkeys candidates (0 :: real))"
    using copeland_sum [of rs candidates] by blast
  have val: "dict_get wins c 0 = (\<Sum>d\<leftarrow>?others c. duel rs c d)" if "c \<in> set candidates" for c
    using copeland_duels [OF assms that, of rs] wins by simp
  have len: "real (length (?others c)) = ?n - 1" if "c \<in> set candidates" for c
    using assms that by (rule length_filter_other)
  have bound: "dict_get wins c 0 \<le> ?n - 1" if "c \<in> set candidates" for c
  proof -
    have "(\<Sum>d\<leftarrow>?others c. duel rs c d) \<le> real (length (?others c))"
      by (intro sum_list_le_length) (simp add: duel_le_1)
    then show ?thesis
      using val [OF that] len [OF that] by simp
  qed
  have vals: "\<forall>v \<in> set (dict_values wins). v \<le> ?n - 1"
  proof
    fix v assume "v \<in> set (dict_values wins)"
    moreover have "distinct (dict_keys wins)"
      by (simp add: keys)
    ultimately obtain k where "k \<in> set (dict_keys wins)" and "dict_get wins k 0 = v"
      using dict_value_has_key by metis
    then show "v \<le> ?n - 1"
      using bound [of k] by (simp add: keys)
  qed
  have all_won: "dict_get wins c 0 = ?n - 1"
    if "c \<in> set candidates" and "\<forall>d \<in> set candidates. d \<noteq> c \<longrightarrow> duel rs c d = 1" for c
  proof -
    have "(\<Sum>d\<leftarrow>?others c. duel rs c d) = real (length (?others c))"
      using that(2) by (intro sum_list_eq_length) simp
    then show ?thesis
      using val [OF that(1)] len [OF that(1)] by simp
  qed
  have majority: "dict_get wins c 0 = ?n - 1"
    if "c \<in> set candidates"
      and "\<forall>d \<in> set candidates. d \<noteq> c \<longrightarrow> 2 * prefer_count rs c d > int (length rs)" for c
    using that by (intro all_won) (auto intro: duel_majority)
  have condorcet: "dict_get wins c 0 = ?n - 1"
    if "c \<in> set candidates"
      and "\<forall>d \<in> set candidates. d \<noteq> c \<longrightarrow> prefer_count rs c d > prefer_count rs d c" for c
    using that by (intro all_won) (auto intro: duel_win)
  have tie: "\<forall>w c1 c2 a. c1 \<in> set (dict_keys w) \<and> c2 \<in> set (dict_keys w) \<and> c1 \<noteq> c2 \<longrightarrow>
          (\<exists>w'. award_pairwise_points w c1 c2 a a = Inr w'
             \<and> dict_get w' c1 0 = dict_get w c1 0 + 1 / 2
             \<and> dict_get w' c2 0 = dict_get w c2 0 + 1 / 2)"
    using award_tie by blast
  show ?thesis
    proof (intro exI [of _ wins] conjI)
    show "copeland_score rs candidates = Inr wins"
      by (rule wins)
    show "set (dict_keys wins) = set candidates"
      by (simp add: keys)
    show "\<forall>v \<in> set (dict_values wins). v \<le> ?n - 1"
      by (rule vals)
    show "\<forall>c \<in> set candidates. dict_get wins c 0 = (\<Sum>d\<leftarrow>?others c. duel rs c d)"
      using val by blast
    show "\<forall>c \<in> set candidates.
          (\<forall>d \<in> set candidates. d \<noteq> c \<longrightarrow> 2 * prefer_count rs c d > int (length rs))
          \<longrightarrow> dict_get wins c 0 = ?n - 1"
      using majority by blast
    show "\<forall>c \<in> set candidates.
          (\<forall>d \<in> set candidates. d \<noteq> c \<longrightarrow> prefer_count rs c d > prefer_count rs d c)
          \<longrightarrow> dict_get wins c 0 = ?n - 1"
      using condorcet by blast
    show "\<forall>w c1 c2 a. c1 \<in> set (dict_keys w) \<and> c2 \<in> set (dict_keys w) \<and> c1 \<noteq> c2 \<longrightarrow>
          (\<exists>w'. award_pairwise_points w c1 c2 a a = Inr w'
             \<and> dict_get w' c1 0 = dict_get w c1 0 + 1 / 2
             \<and> dict_get w' c2 0 = dict_get w c2 0 + 1 / 2)"
      by (rule tie)
  qed
qed

theorem copeland_bound_witness:
  "distinct [''r1'', ''r2'', ''r3'']
   \<and> 2 * prefer_count example_rankings ''r1'' ''r2'' > int (length example_rankings)
   \<and> 2 * prefer_count example_rankings ''r1'' ''r3'' > int (length example_rankings)
   \<and> copeland_score example_rankings [''r1'', ''r2'', ''r3'']
       = Inr [(''r1'', 2), (''r2'', 1), (''r3'', 0)]
   \<and> score_of (copeland_score example_rankings [''r1'', ''r2'', ''r3'']) ''r1'' = 3 - 1
   \<and> copeland_score [] [''A'', ''B''] = Inr [(''A'', 1 / 2), (''B'', 1 / 2)]"
proof -
  have h: "distinct [''r1'', ''r2'', ''r3'']"
    by simp
  have m2: "2 * prefer_count example_rankings ''r1'' ''r2'' > int (length example_rankings)"
    by code_simp
  have m3: "2 * prefer_count example_rankings ''r1'' ''r3'' > int (length example_rankings)"
    by code_simp
  have v: "copeland_score example_rankings [''r1'', ''r2'', ''r3'']
       = Inr [(''r1'', 2), (''r2'', 1), (''r3'', 0)]"
    by code_simp
  have t: "copeland_score [] [''A'', ''B''] = Inr [(''A'', 1 / 2), (''B'', 1 / 2)]"
    by code_simp
  from copeland_bound [OF h, of example_rankings] obtain wins
    where w: "copeland_score example_rankings [''r1'', ''r2'', ''r3''] = Inr wins"
      and maj: "\<forall>c \<in> set [''r1'', ''r2'', ''r3''].
          (\<forall>d \<in> set [''r1'', ''r2'', ''r3''].
             d \<noteq> c \<longrightarrow> 2 * prefer_count example_rankings c d > int (length example_rankings))
          \<longrightarrow> dict_get wins c 0 = real (length [''r1'', ''r2'', ''r3'']) - 1"
    by blast
  from maj m2 m3 have "dict_get wins ''r1'' 0 = 3 - 1"
    by simp
  with w have s: "score_of (copeland_score example_rankings [''r1'', ''r2'', ''r3'']) ''r1'' = 3 - 1"
    by (simp add: score_of_def)
  show ?thesis
    by (intro conjI h m2 m3 v t s)
qed

text \<open>
  Claim C10.  Over a duplicate-free candidate list of size \<open>n\<close> the values of the score
  map of \<open>copeland_score\<close> sum to \<open>n * (n - 1) / 2\<close>: every pair visited hands out one
  point in total (\<open>copeland_sum\<close> and \<open>duel_sum\<close>; the sum is the same for a list with
  repetitions).
\<close>

theorem copeland_total_constant:
  assumes "distinct candidates"
  shows "\<exists>wins. copeland_score rs candidates = Inr wins
     \<and> sum_list (dict_values wins)
         = real (length candidates) * (real (length candidates) - 1) / 2"
proof -
  obtain wins where "copeland_score rs candidates = Inr wins"
    and "sum_list (dict_values wins) = real (length (pairs_after candidates))"
    using copeland_sum [of rs candidates] by blast
  then show ?thesis
    by (simp add: length_pairs_after)
qed

theorem copeland_total_constant_witness:
  "distinct [''r1'', ''r2'', ''r3'']
   \<and> (\<exists>wins. copeland_score example_rankings [''r1'', ''r2'', ''r3''] = Inr wins
         \<and> sum_list (dict_values wins) = 3)"
proof -
  have h: "distinct [''r1'', ''r2'', ''r3'']"
    by simp
  from copeland_total_constant [OF h, of example_rankings] h show ?thesis
    by simp
qed

subsection \<open>Ranked pairs: the cycle test and the locked set\<close>

lemma set_set_add [simp]: "set (set_add xs x) = insert x (set xs)"
  by (auto simp: set_add_def)

text \<open>
  A path that starts inside a set \<open>V\<close> and ends outside of it passes through \<open>Q\<close>, when
  every edge out of \<open>V\<close> leads into \<open>V \<union> Q\<close>.
\<close>

lemma path_leaves_through:
  assumes "(x, w) \<in> E\<^sup>*" and "x \<in> V" and "w \<notin> V"
    and "\<forall>v \<in> V. \<forall>u. (v, u) \<in> E \<longrightarrow> u \<in> V \<union> Q"
  shows "\<exists>q \<in> Q. (q, w) \<in> E\<^sup>*"
  using assms(1,2)
proof (induction rule: converse_rtrancl_induct)
  case base
  with assms(3) show ?case by simp
next
  case (step x y)
  then have "y \<in> V \<union> Q"
    using assms(4) by blast
  then show ?case
  proof
    assume "y \<in> V"
    then show ?thesis by (rule step.IH)
  next
    assume "y \<in> Q"
    with step.hyps(2) show ?thesis by blast
  qed
qed

lemma successors_set:
  "set (map snd (filter (\<lambda>(w, l). w = current) locked)) = {u. (current, u) \<in> set locked}"
  by force

text \<open>
  The breadth-first search answers whether \<open>winner\<close> can be reached from the queue, as
  long as the visited nodes are not \<open>winner\<close> and their successors are visited or queued.
\<close>

lemma creates_cycle_loop_iff:
  assumes "\<forall>v \<in> set visited. v \<noteq> winner
      \<and> (\<forall>u. (v, u) \<in> set locked \<longrightarrow> u \<in> set visited \<union> set queue)"
  shows "creates_cycle_loop locked winner visited queue
      \<longleftrightarrow> (\<exists>q \<in> set queue. (q, winner) \<in> (set locked)\<^sup>*)"
  using assms
proof (induction locked winner visited queue rule: creates_cycle_loop.induct)
  case (1 locked winner visited)
  show ?case by simp
next
  case (2 locked winner visited current queue)
  let ?E = "set locked"
  let ?succ = "map snd (filter (\<lambda>(w, l). w = current) locked)"
  show ?case
  proof (cases "current = winner")
    case True
    then show ?thesis by auto
  next
    case False
    note not_winner = this
    show ?thesis
    proof (cases "current \<in> set visited")
      case True
      have inv: "\<forall>v \<in> set visited. v \<noteq> winner
          \<and> (\<forall>u. (v, u) \<in> ?E \<longrightarrow> u \<in> set visited \<union> set queue)"
        using "2.prems" True by auto
      have ih: "creates_cycle_loop locked winner visited queue
          \<longleftrightarrow> (\<exists>q \<in> set queue. (q, winner) \<in> ?E\<^sup>*)"
        using "2.IH"(1) [OF not_winner True inv] .
      have "\<exists>q \<in> set queue. (q, winner) \<in> ?E\<^sup>*" if "(current, winner) \<in> ?E\<^sup>*"
      proof (rule path_leaves_through [OF that True])
        show "winner \<notin> set visited"
          using inv by blast
        show "\<forall>v \<in> set visited. \<forall>u. (v, u) \<in> ?E \<longrightarrow> u \<in> set visited \<union> set queue"
          using inv by blast
      qed
      then have "(\<exists>q \<in> set (current # queue). (q, winner) \<in> ?E\<^sup>*)
          \<longleftrightarrow> (\<exists>q \<in> set queue. (q, winner) \<in> ?E\<^sup>*)"
        by auto
      with ih not_winner True show ?thesis
        by simp
    next
      case False
      have grown: "set (set_add visited current) = insert current (set visited)"
        by simp
      have queued: "set (queue @ ?succ) = set queue \<union> {u. (current, u) \<in> ?E}"
        by (simp only: set_append successors_set)
      have old: "\<forall>v \<in> set visited. v \<noteq> winner
          \<and> (\<forall>u. (v, u) \<in> ?E \<longrightarrow> u \<in> set visited \<union> insert current (set queue))"
        using "2.prems" by simp
      have inv: "\<forall>v \<in> set (set_add visited current). v \<noteq> winner
          \<and> (\<forall>u. (v, u) \<in> ?E \<longrightarrow> u \<in> set (set_add visited current) \<union> set (queue @ ?succ))"
        unfolding grown queued using old not_winner by blast
      have ih: "creates_cycle_loop locked winner (set_add visited current) (queue @ ?succ)
          \<longleftrightarrow> (\<exists>q \<in> set (queue @ ?succ). (q, winner) \<in> ?E\<^sup>*)"
        using "2.IH"(2) [OF not_winner False inv] .
      have "(\<exists>q \<in> set ?succ. (q, winner) \<in> ?E\<^sup>*) \<longleftrightarrow> (current, winner) \<in> ?E\<^sup>*"
      proof
        assume "\<exists>q \<in> set ?succ. (q, winner) \<in> ?E\<^sup>*"
        then obtain q where "(current, q) \<in> ?E" and "(q, winner) \<in> ?E\<^sup>*"
          unfolding successors_set by blast
        then show "(current, winner) \<in> ?E\<^sup>*"
          by (rule converse_rtrancl_into_rtrancl)
      next
        assume "(current, winner) \<in> ?E\<^sup>*"
        then obtain q where "(current, q) \<in> ?E" and "(q, winner) \<in> ?E\<^sup>*"
          using not_winner by (auto elim: converse_rtranclE)
        then show "\<exists>q \<in> set ?succ. (q, winner) \<in> ?E\<^sup>*"
          unfolding successors_set by blast
      qed
      then have "(\<exists>q \<in> set (current # queue). (q, winner) \<in> ?E\<^sup>*)
          \<longleftrightarrow> (\<exists>q \<in> set (queue @ ?succ). (q, winner) \<in> ?E\<^sup>*)"
        unfolding set_append list.set by blast
      with ih not_winner False show ?thesis
        by simp
    qed
  qed
qed

lemma creates_cycle_iff:
  "creates_cycle locked winner loser \<longleftrightarrow> (loser, winner) \<in> (set locked)\<^sup>*"
  unfolding creates_cycle_def
  by (subst creates_cycle_loop_iff) simp_all

lemma lock_step_acyclic:
  assumes "acyclic (set locked)"
  shows "acyclic (set (if \<not> creates_cycle locked winner loser
                       then set_add locked (winner, loser) else locked))"
  using assms by (simp add: creates_cycle_iff)

lemma lock_pairs_foldl_acyclic:
  "acyclic (set locked) \<Longrightarrow>
   acyclic (set (foldl (\<lambda>locked (winner, loser, margin).
       if \<not> creates_cycle locked winner loser then set_add locked (winner, loser) else locked)
     locked pairs))"
proof (induction pairs arbitrary: locked)
  case Nil
  then show ?case by simp
next
  case (Cons p pairs)
  obtain winner loser margin where p: "p = (winner, loser, margin)"
    by (cases p)
  show ?case
    using Cons.IH [OF lock_step_acyclic [OF Cons.prems, of winner loser]]
    by (simp add: p)
qed

lemma lock_pairs_acyclic: "acyclic (set (lock_pairs_without_cycles pairs))"
  unfolding lock_pairs_without_cycles_def
  by (rule lock_pairs_foldl_acyclic) (simp add: acyclic_def)

lemma lock_pairs_foldl_subset:
  "set (foldl (\<lambda>locked (winner, loser, margin).
       if \<not> creates_cycle locked winner loser then set_add locked (winner, loser) else locked)
     locked pairs)
   \<subseteq> set locked \<union> (\<lambda>(winner, loser, margin). (winner, loser)) ` set pairs"
proof (induction pairs arbitrary: locked)
  case Nil
  show ?case by simp
next
  case (Cons p pairs)
  obtain winner loser margin where p: "p = (winner, loser, margin)"
    by (cases p)
  show ?case
    using Cons.IH [of "if \<not> creates_cycle locked winner loser
                       then set_add locked (winner, loser) else locked"]
    by (auto simp: p split: if_splits)
qed

lemma lock_pairs_subset:
  "set (lock_pairs_without_cycles pairs) \<subseteq> (\<lambda>(winner, loser, margin). (winner, loser)) ` set pairs"
  unfolding lock_pairs_without_cycles_def
  using lock_pairs_foldl_subset [of "[]" pairs] by simp

subsection \<open>Dictionaries of dictionaries\<close>

lemma matrix_over_init: "matrix_over ks (dict_comp (\<lambda>_. fromkeys ks v) ks)"
  by (simp add: matrix_over_def map_of_dict_comp)

lemma dict2_get_init: "dict2_get (dict_comp (\<lambda>_. fromkeys ks v) ks) a b v = v"
proof (cases "a \<in> set ks")
  case True
  then show ?thesis
    by (simp add: dict2_get_def dict_get_def [of "dict_comp _ _"] map_of_dict_comp)
next
  case False
  then show ?thesis
    by (simp add: dict2_get_def dict_get_def map_of_dict_comp)
qed

lemma matrix_row:
  assumes "matrix_over ks m" and "a \<in> set ks"
  shows "\<exists>row. map_of m a = Some row \<and> dict_getitem m a = Inr row \<and> dict_get m a [] = row
           \<and> set (dict_keys row) = set ks"
  using assms by (auto simp: matrix_over_def dict_getitem_def dict_get_def)

lemma matrix_cell:
  assumes "matrix_over ks m" and "a \<in> set ks" and "b \<in> set ks"
  shows "\<exists>row. dict_getitem m a = Inr row \<and> dict_getitem row b = Inr (dict2_get m a b dflt)"
proof -
  from matrix_row [OF assms(1,2)] obtain row
    where row: "dict_getitem m a = Inr row" "dict_get m a [] = row" "set (dict_keys row) = set ks"
    by blast
  then have "b \<in> set (dict_keys row)"
    using assms(3) by simp
  from dict_getitem_present [OF this] obtain v
    where "dict_getitem row b = Inr v" "map_of row b = Some v"
    by blast
  with row show ?thesis
    by (simp add: dict2_get_def dict_get_def)
qed

lemma dict2_contains_over:
  assumes "matrix_over ks m"
  shows "dict2_contains m a b = Inr (a \<in> set ks \<and> b \<in> set ks)"
proof (cases "a \<in> set ks")
  case True
  from matrix_row [OF assms True] obtain row
    where "dict_getitem m a = Inr row" "set (dict_keys row) = set ks"
    by blast
  moreover have "dict_contains m a"
    using assms True by (simp add: dict_contains_iff matrix_over_def)
  ultimately show ?thesis
    using True by (simp add: dict2_contains_def dict_contains_iff)
next
  case False
  then have "\<not> dict_contains m a"
    using assms by (simp add: dict_contains_iff matrix_over_def)
  with False show ?thesis
    by (simp add: dict2_contains_def)
qed

lemma matrix_store_row:
  assumes m: "matrix_over ks m" and a: "a \<in> set ks" and row: "set (dict_keys row') = set ks"
  shows "matrix_over ks (dict_setitem m a row')"
    and "dict_keys (dict_setitem m a row') = dict_keys m"
    and "dict_get (dict_setitem m a row') p [] = (if p = a then row' else dict_get m p [])"
proof -
  have ak: "a \<in> set (dict_keys m)"
    using m a by (simp add: matrix_over_def)
  show "dict_keys (dict_setitem m a row') = dict_keys m"
    using ak by (rule dict_keys_setitem)
  then show "matrix_over ks (dict_setitem m a row')"
    using m row by (auto simp: matrix_over_def map_of_setitem)
  show "dict_get (dict_setitem m a row') p [] = (if p = a then row' else dict_get m p [])"
    by (rule dict_get_setitem)
qed

lemma dict2_setitem_over:
  assumes m: "matrix_over ks m" and a: "a \<in> set ks" and b: "b \<in> set ks"
  shows "\<exists>m'. dict2_setitem m a b v = Inr m' \<and> matrix_over ks m' \<and> dict_keys m' = dict_keys m
           \<and> (\<forall>p q. dict2_get m' p q dflt = (if p = a \<and> q = b then v else dict2_get m p q dflt))"
proof -
  from matrix_row [OF m a] obtain row
    where row: "dict_getitem m a = Inr row" "dict_get m a [] = row" "set (dict_keys row) = set ks"
    by blast
  let ?row = "dict_setitem row b v"
  have keys: "set (dict_keys ?row) = set ks"
    using row(3) b by (auto simp: set_dict_keys_setitem)
  have "dict2_setitem m a b v = Inr (dict_setitem m a ?row)"
    using row(1) by (simp add: dict2_setitem_def)
  moreover have "\<forall>p q. dict2_get (dict_setitem m a ?row) p q dflt
      = (if p = a \<and> q = b then v else dict2_get m p q dflt)"
    using row(2) by (simp add: dict2_get_def matrix_store_row(3) [OF m a keys] dict_get_setitem)
  ultimately show ?thesis
    using matrix_store_row(1,2) [OF m a keys] by simp
qed

lemma dict2_iadd_over:
  assumes m: "matrix_over ks m" and a: "a \<in> set ks" and b: "b \<in> set ks"
  shows "\<exists>m'. dict2_iadd m a b x = Inr m' \<and> matrix_over ks m'
           \<and> (\<forall>p q. dict2_get m' p q 0
                  = dict2_get m p q 0 + (if p = a \<and> q = b then x else 0))"
proof -
  from matrix_row [OF m a] obtain row
    where row: "dict_getitem m a = Inr row" "dict_get m a [] = row" "set (dict_keys row) = set ks"
    by blast
  from matrix_cell [OF m a b, of 0] row(1)
  have cell: "dict_getitem row b = Inr (dict2_get m a b 0)"
    by simp
  let ?row = "dict_setitem row b (dict2_get m a b 0 + x)"
  have keys: "set (dict_keys ?row) = set ks"
    using row(3) b by (auto simp: set_dict_keys_setitem)
  have "dict2_iadd m a b x = Inr (dict_setitem m a ?row)"
    using row(1) cell by (simp add: dict2_iadd_def)
  moreover have "\<forall>p q. dict2_get (dict_setitem m a ?row) p q 0
      = dict2_get m p q 0 + (if p = a \<and> q = b then x else 0)"
    using row(2) by (simp add: dict2_get_def matrix_store_row(3) [OF m a keys] dict_get_setitem)
  ultimately show ?thesis
    using matrix_store_row(1) [OF m a keys] by simp
qed

subsection \<open>Ranked pairs: tally, margins, scores\<close>

lemma build_preference_matrix_over:
  fixes c :: string
  defines "quiet \<equiv> \<lambda>rs pref. (\<forall>r \<in> set rs. c \<notin> set (rankings r))
      \<longrightarrow> (\<forall>d. dict2_get pref c d 0 = 0 \<and> dict2_get pref d c 0 = (0 :: int))"
  shows "\<exists>pref. build_preference_matrix rs candidates = Inr pref
           \<and> matrix_over candidates pref \<and> quiet rs pref"
  unfolding build_preference_matrix_def
proof (rule for_each_inv [where I = "\<lambda>pref. matrix_over candidates pref \<and> quiet rs pref"])
  show "matrix_over candidates (dict_comp (\<lambda>c1. fromkeys candidates (0 :: int)) candidates)
      \<and> quiet rs (dict_comp (\<lambda>c1. fromkeys candidates 0) candidates)"
    by (simp add: matrix_over_init quiet_def dict2_get_init)
next
  fix r :: Ranking and pref :: "(string, (string, int) dict) dict"
  assume r: "r \<in> set rs" and pref: "matrix_over candidates pref \<and> quiet rs pref"
  show "\<exists>s'. for_each (enumerate 0 (rankings r)) (\<lambda>(i, c1).
            for_each (drop (i + 1) (rankings r)) (\<lambda>c2 pref.
              bind (dict2_contains pref c1 c2) (\<lambda>present.
                if present then dict2_iadd pref c1 c2 1 else Inr pref))) pref = Inr s'
          \<and> matrix_over candidates s' \<and> quiet rs s'"
    unfolding for_each_pairs
  proof (rule for_each_inv [where I = "\<lambda>pref. matrix_over candidates pref \<and> quiet rs pref"])
    show "matrix_over candidates pref \<and> quiet rs pref"
      by (rule pref)
  next
    fix pr :: "string \<times> string" and t :: "(string, (string, int) dict) dict"
    assume pr: "pr \<in> set (pairs_after (rankings r))"
      and t: "matrix_over candidates t \<and> quiet rs t"
    obtain c1 c2 where eq: "pr = (c1, c2)"
      by (cases pr)
    from pr eq have mem: "c1 \<in> set (rankings r)" "c2 \<in> set (rankings r)"
      by (auto dest: set_pairs_after)
    have tm: "matrix_over candidates t"
      using t by simp
    show "\<exists>s'. (case pr of (c1, c2) \<Rightarrow> \<lambda>pref.
              bind (dict2_contains pref c1 c2) (\<lambda>present.
                if present then dict2_iadd pref c1 c2 1 else Inr pref)) t = Inr s'
          \<and> matrix_over candidates s' \<and> quiet rs s'"
    proof (cases "c1 \<in> set candidates \<and> c2 \<in> set candidates")
      case True
      from t True dict2_iadd_over [of candidates t c1 c2 1] obtain t'
        where t': "dict2_iadd t c1 c2 1 = Inr t'" "matrix_over candidates t'"
          "\<forall>p q. dict2_get t' p q 0 = dict2_get t p q 0 + (if p = c1 \<and> q = c2 then 1 else 0)"
        by blast
      have "quiet rs t'"
        unfolding quiet_def
      proof (intro impI allI)
        fix d
        assume un: "\<forall>r \<in> set rs. c \<notin> set (rankings r)"
        with r mem have "c1 \<noteq> c" "c2 \<noteq> c"
          by auto
        moreover from un t have "dict2_get t c d 0 = 0 \<and> dict2_get t d c 0 = 0"
          by (simp add: quiet_def)
        ultimately show "dict2_get t' c d 0 = 0 \<and> dict2_get t' d c 0 = 0"
          using t'(3) by simp
      qed
      with t' True show ?thesis
        by (simp add: eq dict2_contains_over [OF tm])
    next
      case False
      with t show ?thesis
        by (auto simp: eq dict2_contains_over [OF tm])
    qed
  qed
qed

lemma calculate_margin_pairs_over:
  assumes pref: "matrix_over candidates pref"
  shows "\<exists>pairs. calculate_margin_pairs candidates pref = Inr pairs
     \<and> (\<forall>(winner, loser, margin) \<in> set pairs.
           winner \<in> set candidates \<and> loser \<in> set candidates \<and> 0 < margin
           \<and> margin = dict2_get pref winner loser 0 - dict2_get pref loser winner 0)"
  unfolding calculate_margin_pairs_def for_each_pairs
proof (rule for_each_inv [where I = "\<lambda>pairs. \<forall>(winner, loser, margin) \<in> set pairs.
           winner \<in> set candidates \<and> loser \<in> set candidates \<and> 0 < margin
           \<and> margin = dict2_get pref winner loser 0 - dict2_get pref loser winner 0"])
  show "\<forall>(winner, loser, margin) \<in> set []. winner \<in> set candidates \<and> loser \<in> set candidates
      \<and> 0 < margin \<and> margin = dict2_get pref winner loser 0 - dict2_get pref loser winner 0"
    by simp
next
  fix pr :: "string \<times> string" and pairs :: "(string \<times> string \<times> int) list"
  assume pr: "pr \<in> set (pairs_after candidates)"
    and inv: "\<forall>(winner, loser, margin) \<in> set pairs.
           winner \<in> set candidates \<and> loser \<in> set candidates \<and> 0 < margin
           \<and> margin = dict2_get pref winner loser 0 - dict2_get pref loser winner 0"
  obtain c1 c2 where eq: "pr = (c1, c2)"
    by (cases pr)
  from pr eq have mem: "c1 \<in> set candidates" "c2 \<in> set candidates"
    by (auto dest: set_pairs_after)
  from matrix_cell [OF pref mem(1) mem(2), of 0] obtain row1
    where row1: "dict_getitem pref c1 = Inr row1" "dict_getitem row1 c2 = Inr (dict2_get pref c1 c2 0)"
    by blast
  from matrix_cell [OF pref mem(2) mem(1), of 0] obtain row2
    where row2: "dict_getitem pref c2 = Inr row2" "dict_getitem row2 c1 = Inr (dict2_get pref c2 c1 0)"
    by blast
  show "\<exists>s'. (case pr of (c1, c2) \<Rightarrow> \<lambda>pairs.
         bind (dict_getitem pref c1) (\<lambda>row1.
         bind (dict_getitem row1 c2) (\<lambda>p12.
         bind (dict_getitem pref c2) (\<lambda>row2.
         bind (dict_getitem row2 c1) (\<lambda>p21.
           let margin = p12 - p21 in
           if margin > 0 then Inr (pairs @ [(c1, c2, margin)])
           else if margin < 0 then Inr (pairs @ [(c2, c1, - margin)])
           else Inr pairs))))) pairs = Inr s'
       \<and> (\<forall>(winner, loser, margin) \<in> set s'.
           winner \<in> set candidates \<and> loser \<in> set candidates \<and> 0 < margin
           \<and> margin = dict2_get pref winner loser 0 - dict2_get pref loser winner 0)"
    using inv mem by (simp add: eq row1 row2 Let_def)
qed

lemma set_sort_pairs [simp]: "set (sort_pairs pairs) = set pairs"
  by (simp add: sort_pairs_def)

lemma locked_pairs_over:
  "\<exists>locked. locked_pairs rs candidates = Inr locked \<and> acyclic (set locked)
     \<and> (\<forall>(winner, loser) \<in> set locked. winner \<in> set candidates \<and> loser \<in> set candidates)
     \<and> ((\<forall>r \<in> set rs. c \<notin> set (rankings r)) \<longrightarrow> (\<forall>(winner, loser) \<in> set locked. winner \<noteq> c))"
proof -
  from build_preference_matrix_over [of rs candidates c] obtain pref
    where pref: "build_preference_matrix rs candidates = Inr pref" "matrix_over candidates pref"
      and quiet: "(\<forall>r \<in> set rs. c \<notin> set (rankings r))
        \<longrightarrow> (\<forall>d. dict2_get pref c d 0 = 0 \<and> dict2_get pref d c 0 = 0)"
    by blast
  from calculate_margin_pairs_over [OF pref(2)] obtain pairs
    where pairs: "calculate_margin_pairs candidates pref = Inr pairs"
      and inv: "\<forall>(winner, loser, margin) \<in> set pairs.
           winner \<in> set candidates \<and> loser \<in> set candidates \<and> 0 < margin
           \<and> margin = dict2_get pref winner loser 0 - dict2_get pref loser winner 0"
    by blast
  let ?locked = "lock_pairs_without_cycles (sort_pairs pairs)"
  have sub: "set ?locked \<subseteq> (\<lambda>(winner, loser, margin). (winner, loser)) ` set pairs"
    using lock_pairs_subset [of "sort_pairs pairs"] by simp
  have "locked_pairs rs candidates = Inr ?locked"
    by (simp add: locked_pairs_def pref(1) pairs)
  moreover have "acyclic (set ?locked)"
    by (rule lock_pairs_acyclic)
  moreover have "\<forall>(winner, loser) \<in> set ?locked. winner \<in> set candidates \<and> loser \<in> set candidates"
    using sub inv by fastforce
  moreover have "\<forall>(winner, loser) \<in> set ?locked. winner \<noteq> c"
    if "\<forall>r \<in> set rs. c \<notin> set (rankings r)"
  proof -
    from that quiet have "\<forall>d. dict2_get pref c d 0 = 0 \<and> dict2_get pref d c 0 = 0"
      by blast
    with inv have "\<forall>(winner, loser, margin) \<in> set pairs. winner \<noteq> c"
      by fastforce
    with sub show ?thesis
      by fastforce
  qed
  ultimately show ?thesis
    by blast
qed

text \<open>
  Claim C1.  The set that \<open>_lock_pairs_without_cycles\<close> returns has no directed cycle
  (no node reaches itself along one or more locked edges), for every list of pairs;
  and \<open>ranked_pairs\<close> always builds its locked set, for every list of rankings and every
  candidate list, so that set is acyclic as well.
\<close>

theorem ranked_pairs_locked_acyclic:
  "acyclic (set (lock_pairs_without_cycles pairs))
   \<and> (\<forall>x. (x, x) \<notin> (set (lock_pairs_without_cycles pairs))\<^sup>+)
   \<and> (\<exists>locked. locked_pairs rs candidates = Inr locked \<and> acyclic (set locked))"
proof (intro conjI)
  show "acyclic (set (lock_pairs_without_cycles pairs))"
    by (rule lock_pairs_acyclic)
  then show "\<forall>x. (x, x) \<notin> (set (lock_pairs_without_cycles pairs))\<^sup>+"
    by (simp add: acyclic_def)
  show "\<exists>locked. locked_pairs rs candidates = Inr locked \<and> acyclic (set locked)"
    using locked_pairs_over [of rs candidates "[]"] by blast
qed

theorem ranked_pairs_locked_acyclic_witness:
  "locked_pairs cyclic_rankings [''A'', ''B'', ''C''] = Inr [(''A'', ''B''), (''C'', ''A'')]
   \<and> acyclic (set [(''A'', ''B''), (''C'', ''A'')])
   \<and> lock_pairs_without_cycles [(''A'', ''B'', 3), (''B'', ''C'', 2), (''C'', ''A'', 1)]
       = [(''A'', ''B''), (''B'', ''C'')]
   \<and> acyclic (set [(''A'', ''B''), (''B'', ''C'')])"
proof -
  have v: "locked_pairs cyclic_rankings [''A'', ''B'', ''C''] = Inr [(''A'', ''B''), (''C'', ''A'')]"
    by code_simp
  have w: "lock_pairs_without_cycles [(''A'', ''B'', 3), (''B'', ''C'', 2), (''C'', ''A'', 1)]
       = [(''A'', ''B''), (''B'', ''C'')]"
    by code_simp
  from ranked_pairs_locked_acyclic
    [of "[(''A'', ''B'', 3), (''B'', ''C'', 2), (''C'', ''A'', 1)]" cyclic_rankings "[''A'', ''B'', ''C'']"]
  obtain locked where a: "acyclic (set (lock_pairs_without_cycles
        [(''A'', ''B'', 3), (''B'', ''C'', 2), (''C'', ''A'', 1)]))"
    and l: "locked_pairs cyclic_rankings [''A'', ''B'', ''C''] = Inr locked" "acyclic (set locked)"
    by blast
  from l v have "acyclic (set [(''A'', ''B''), (''C'', ''A'')])"
    by (simp only: sum.inject)
  moreover from a have "acyclic (set [(''A'', ''B''), (''B'', ''C'')])"
    by (simp only: w)
  ultimately show ?thesis
    using v w by (intro conjI)
qed

lemma ranked_pairs_value:
  "\<exists>locked scores. locked_pairs rs candidates = Inr locked
     \<and> ranked_pairs rs candidates = Inr scores
     \<and> dict_keys scores = dict_keys (fromkeys candidates (0 :: real))
     \<and> dict_get scores c 0 = (\<Sum>(winner, loser)\<leftarrow>locked. if winner = c then 1 else 0)
     \<and> ((\<forall>r \<in> set rs. c \<notin> set (rankings r)) \<longrightarrow> dict_get scores c 0 = 0)"
proof -
  let ?K = "dict_keys (fromkeys candidates (0 :: real))"
  from locked_pairs_over [of rs candidates c] obtain locked
    where locked: "locked_pairs rs candidates = Inr locked"
      and mem: "\<forall>(winner, loser) \<in> set locked. winner \<in> set candidates \<and> loser \<in> set candidates"
      and quiet: "(\<forall>r \<in> set rs. c \<notin> set (rankings r))
        \<longrightarrow> (\<forall>(winner, loser) \<in> set locked. winner \<noteq> c)"
    by blast
  have "\<exists>scores. for_each locked (\<lambda>(winner, loser) scores. dict_iadd scores winner 1)
            (fromkeys candidates 0) = Inr scores
          \<and> dict_keys scores = ?K
          \<and> dict_get scores c 0 = dict_get (fromkeys candidates (0 :: real)) c 0
               + sum_list (map (\<lambda>(winner, loser). if winner = c then 1 else 0) locked)"
  proof (rule for_each_acc [where I = "\<lambda>s. dict_keys s = ?K"])
    show "dict_keys (fromkeys candidates (0 :: real)) = ?K"
      by simp
  next
    fix e :: "string \<times> string" and s :: "(string, real) dict"
    assume e: "e \<in> set locked" and s: "dict_keys s = ?K"
    obtain winner loser where eq: "e = (winner, loser)"
      by (cases e)
    with e mem s have "winner \<in> set (dict_keys s)"
      by auto
    from dict_iadd_value [OF this, of 1 c] s
    show "\<exists>s'. (case e of (winner, loser) \<Rightarrow> \<lambda>scores. dict_iadd scores winner 1) s = Inr s'
        \<and> dict_keys s' = ?K
        \<and> dict_get s' c 0 = dict_get s c 0 + (case e of (winner, loser) \<Rightarrow> if winner = c then 1 else 0)"
      by (simp add: eq)
  qed
  then obtain scores
    where scores: "for_each locked (\<lambda>(winner, loser) scores. dict_iadd scores winner 1)
            (fromkeys candidates 0) = Inr scores"
      and keys: "dict_keys scores = ?K"
      and val: "dict_get scores c 0 = (\<Sum>(winner, loser)\<leftarrow>locked. if winner = c then 1 else 0)"
    by auto
  have "dict_get scores c 0 = 0" if "\<forall>r \<in> set rs. c \<notin> set (rankings r)"
  proof -
    from that quiet have "\<forall>e \<in> set (map (\<lambda>(winner, loser). if winner = c then 1 else (0 :: real)) locked).
        e = 0"
      by fastforce
    then show ?thesis
      unfolding val by (rule sum_list_all_zero)
  qed
  moreover have "ranked_pairs rs candidates = Inr scores"
    by (simp add: ranked_pairs_def locked scores)
  ultimately show ?thesis
    using locked keys val by blast
qed

subsection \<open>Plurality\<close>

lemma map_result_total:
  "\<forall>x \<in> set xs. f x = Inr (g x) \<Longrightarrow> map_result f xs = Inr (map g xs)"
  by (induction xs) simp_all

lemma plurality_eq:
  "plurality rs candidates
     = Inr (dict_comp (\<lambda>c. of_int (counter_get
              (map (\<lambda>r. hd (rankings r)) (filter (\<lambda>r. rankings r \<noteq> []) rs)) c)) candidates)"
proof -
  have "map_result (\<lambda>r. list_first (rankings r)) (filter (\<lambda>r. rankings r \<noteq> []) rs)
      = Inr (map (\<lambda>r. hd (rankings r)) (filter (\<lambda>r. rankings r \<noteq> []) rs))"
    by (rule map_result_total) (auto simp: list_first_def split: list.splits)
  then show ?thesis
    by (simp add: plurality_def)
qed

lemma plurality_value:
  "\<exists>scores. plurality rs candidates = Inr scores
     \<and> set (dict_keys scores) = set candidates \<and> distinct (dict_keys scores)
     \<and> ((\<forall>r \<in> set rs. c \<notin> set (rankings r)) \<and> c \<in> set candidates \<longrightarrow> map_of scores c = Some 0)"
proof -
  let ?first = "map (\<lambda>r. hd (rankings r)) (filter (\<lambda>r. rankings r \<noteq> []) rs)"
  have "counter_get ?first c = 0" if "\<forall>r \<in> set rs. c \<notin> set (rankings r)"
  proof -
    have "c \<notin> set ?first"
      using that by (auto dest: hd_in_set)
    then show ?thesis
      by (simp add: counter_get_def)
  qed
  then show ?thesis
    by (auto simp: plurality_eq map_of_dict_comp)
qed

subsection \<open>Entries of the score maps\<close>

lemma map_of_dict_get:
  "c \<in> set (dict_keys d) \<Longrightarrow> map_of d c = Some (dict_get d c dflt)"
  by (cases "map_of d c") (auto simp: dict_get_def dict_keys_def map_of_eq_None_iff)

lemma map_of_absent: "c \<notin> set (dict_keys d) \<Longrightarrow> map_of d c = None"
  by (simp add: dict_keys_def map_of_eq_None_iff)

lemma enumerate_member: "(p, x) \<in> set (enumerate n xs) \<Longrightarrow> x \<in> set xs"
  by (metis in_set_zipE enumerate_eq_zip)

lemma positional_unmentioned:
  fixes g :: "Ranking \<Rightarrow> nat \<Rightarrow> real"
  assumes "\<forall>r \<in> set rs. c \<notin> set (rankings r)"
  shows "(\<Sum>r\<leftarrow>rs. sum_list (map (\<lambda>(p, x). if x \<in> set candidates \<and> x = c then g r p else 0)
                        (enumerate 0 (rankings r)))) = 0"
proof (rule sum_list_all_zero, rule ballI)
  fix v
  assume "v \<in> set (map (\<lambda>r. sum_list (map (\<lambda>(p, x). if x \<in> set candidates \<and> x = c then g r p else 0)
                        (enumerate 0 (rankings r)))) rs)"
  then obtain r where r: "r \<in> set rs"
    and v: "v = sum_list (map (\<lambda>(p, x). if x \<in> set candidates \<and> x = c then g r p else 0)
                        (enumerate 0 (rankings r)))"
    by auto
  have "\<forall>e \<in> set (map (\<lambda>(p, x). if x \<in> set candidates \<and> x = c then g r p else 0)
                        (enumerate 0 (rankings r))). e = 0"
  proof
    fix e
    assume "e \<in> set (map (\<lambda>(p, x). if x \<in> set candidates \<and> x = c then g r p else 0)
                        (enumerate 0 (rankings r)))"
    then obtain p x where px: "(p, x) \<in> set (enumerate 0 (rankings r))"
      and e: "e = (if x \<in> set candidates \<and> x = c then g r p else 0)"
      by auto
    from px have "x \<in> set (rankings r)"
      by (rule enumerate_member)
    with assms r have "x \<noteq> c"
      by auto
    with e show "e = 0"
      by simp
  qed
  then show "v = 0"
    unfolding v by (rule sum_list_all_zero)
qed

lemma duel_unmentioned: "\<forall>r \<in> set rs. c \<notin> set (rankings r) \<Longrightarrow> duel rs c d = 1 / 2"
  using prefer_count_unmentioned [of rs c d] by (simp add: duel_def)

text \<open>
  Over any list, also one with repetitions: an element that occurs \<open>k\<close> times in a list
  of length \<open>n\<close> is an end of a visited pair \<open>k * (n - 1)\<close> times, counting a pair of
  two of its occurrences twice.
\<close>

lemma sum_pairs_after_count:
  fixes h :: real
  shows "sum_list (map (\<lambda>(a, b). (if a = c then h else 0) + (if b = c then h else 0))
           (pairs_after xs))
       = h * real (count_list xs c) * (real (length xs) - 1)"
proof (induction xs)
  case Nil
  show ?case by simp
next
  case (Cons x xs)
  have row: "sum_list (map (\<lambda>b. (if x = c then h else 0) + (if b = c then h else 0)) ys)
      = (if x = c then h else 0) * real (length ys) + h * real (count_list ys c)" for ys
    by (induction ys) (simp_all add: algebra_simps)
  have "sum_list (map (\<lambda>(a, b). (if a = c then h else 0) + (if b = c then h else 0))
           (pairs_after (x # xs)))
      = (if x = c then h else 0) * real (length xs) + h * real (count_list xs c)
        + h * real (count_list xs c) * (real (length xs) - 1)"
    by (simp add: comp_def row Cons.IH)
  also have "\<dots> = h * real (count_list (x # xs) c) * (real (length (x # xs)) - 1)"
    by (simp add: algebra_simps)
  finally show ?case .
qed

lemma copeland_unmentioned:
  assumes "\<forall>r \<in> set rs. c \<notin> set (rankings r)"
  shows "\<exists>wins. copeland_score rs candidates = Inr wins
     \<and> dict_get wins c 0
         = real (count_list candidates c) * (real (length candidates) - 1) / 2"
proof -
  from copeland_value [of rs candidates c] obtain wins
    where wins: "copeland_score rs candidates = Inr wins"
      and val: "dict_get wins c 0
         = sum_list (map (\<lambda>(c1, c2). (if c1 = c then duel rs c1 c2 else 0)
                                    + (if c2 = c then duel rs c2 c1 else 0))
                    (pairs_after candidates))"
    by blast
  have "(\<lambda>(c1, c2). (if c1 = c then duel rs c1 c2 else 0) + (if c2 = c then duel rs c2 c1 else 0))
      = (\<lambda>(c1, c2). (if c1 = c then 1 / 2 else 0) + (if c2 = c then 1 / 2 else 0))"
    by (auto simp: fun_eq_iff duel_unmentioned [OF assms])
  with val have "dict_get wins c 0
      = sum_list (map (\<lambda>(c1, c2). (if c1 = c then 1 / 2 else 0) + (if c2 = c then 1 / 2 else (0 :: real)))
                    (pairs_after candidates))"
    by simp
  also have "\<dots> = 1 / 2 * real (count_list candidates c) * (real (length candidates) - 1)"
    by (rule sum_pairs_after_count)
  finally show ?thesis
    using wins by simp
qed

text \<open>
  Claim C2, as the code has it.  Each of the five methods returns a score map whose key
  set is the set of candidates, so an identifier outside the candidates has no entry.
  A candidate that no ranking mentions has the entry \<open>0\<close> under \<open>plurality\<close>,
  \<open>borda_count\<close>, \<open>weighted_borda\<close> and \<open>ranked_pairs\<close>.  Under \<open>copeland_score\<close> all
  its comparisons are \<open>0\<close>-\<open>0\<close> ties and its entry is one half for each time it is an
  end of a visited pair: \<open>k * (n - 1) / 2\<close> when it occurs \<open>k\<close> times in a candidate list
  of length \<open>n\<close>, which over a duplicate-free candidate list is \<open>(n - 1) / 2\<close>, one half
  for each other candidate.
\<close>

theorem score_map_completeness:
  "\<exists>p b w k r.
      plurality rs candidates = Inr p \<and> borda_count rs candidates = Inr b
    \<and> weighted_borda rs candidates = Inr w \<and> copeland_score rs candidates = Inr k
    \<and> ranked_pairs rs candidates = Inr r
    \<and> set (dict_keys p) = set candidates \<and> set (dict_keys b) = set candidates
    \<and> set (dict_keys w) = set candidates \<and> set (dict_keys k) = set candidates
    \<and> set (dict_keys r) = set candidates
    \<and> (\<forall>c. c \<notin> set candidates \<longrightarrow>
          map_of p c = None \<and> map_of b c = None \<and> map_of w c = None
          \<and> map_of k c = None \<and> map_of r c = None)
    \<and> (\<forall>c \<in> set candidates. (\<forall>x \<in> set rs. c \<notin> set (rankings x)) \<longrightarrow>
          map_of p c = Some 0 \<and> map_of b c = Some 0 \<and> map_of w c = Some 0
          \<and> map_of r c = Some 0
          \<and> map_of k c
              = Some (real (count_list candidates c) * (real (length candidates) - 1) / 2)
          \<and> (distinct candidates \<longrightarrow> map_of k c = Some ((real (length candidates) - 1) / 2)))"
proof -
  let ?K = "dict_keys (fromkeys candidates (0 :: real))"
  obtain p where p: "plurality rs candidates = Inr p" and pk: "set (dict_keys p) = set candidates"
    using plurality_value [of rs candidates] by blast
  obtain b where b: "borda_count rs candidates = Inr b" and bk: "dict_keys b = ?K"
    using borda_count_value [of rs candidates] by blast
  obtain w where w: "weighted_borda rs candidates = Inr w" and wk: "dict_keys w = ?K"
    using weighted_borda_value [of rs candidates] by blast
  obtain k where k: "copeland_score rs candidates = Inr k" and kk: "dict_keys k = ?K"
    using copeland_sum [of rs candidates] by blast
  obtain r where r: "ranked_pairs rs candidates = Inr r" and rk: "dict_keys r = ?K"
    using ranked_pairs_value [of rs candidates] by blast
  have keys: "set (dict_keys p) = set candidates" "set (dict_keys b) = set candidates"
      "set (dict_keys w) = set candidates" "set (dict_keys k) = set candidates"
      "set (dict_keys r) = set candidates"
    using pk bk wk kk rk by simp_all
  have absent: "\<forall>c. c \<notin> set candidates \<longrightarrow>
          map_of p c = None \<and> map_of b c = None \<and> map_of w c = None
          \<and> map_of k c = None \<and> map_of r c = None"
    using keys by (simp add: map_of_absent)
  have quiet: "map_of p c = Some 0 \<and> map_of b c = Some 0 \<and> map_of w c = Some 0
          \<and> map_of r c = Some 0
          \<and> map_of k c
              = Some (real (count_list candidates c) * (real (length candidates) - 1) / 2)
          \<and> (distinct candidates \<longrightarrow> map_of k c = Some ((real (length candidates) - 1) / 2))"
    if c: "c \<in> set candidates" and un: "\<forall>x \<in> set rs. c \<notin> set (rankings x)" for c
  proof (intro conjI impI)
    show "map_of p c = Some 0"
      using plurality_value [of rs candidates c] p c un by auto
    have "dict_get b c 0 = 0"
      using borda_count_value [of rs candidates c] b positional_unmentioned [OF un] by simp
    then show "map_of b c = Some 0"
      using map_of_dict_get [of c b 0] c keys by simp
    have "dict_get w c 0 = 0"
      using weighted_borda_value [of rs candidates c] w positional_unmentioned [OF un] by simp
    then show "map_of w c = Some 0"
      using map_of_dict_get [of c w 0] c keys by simp
    have "dict_get r c 0 = 0"
      using ranked_pairs_value [of rs candidates c] r un by auto
    then show "map_of r c = Some 0"
      using map_of_dict_get [of c r 0] c keys by simp
    have "dict_get k c 0 = real (count_list candidates c) * (real (length candidates) - 1) / 2"
      using copeland_unmentioned [OF un, of candidates] k by simp
    then show "map_of k c
        = Some (real (count_list candidates c) * (real (length candidates) - 1) / 2)"
      using map_of_dict_get [of c k 0] c keys by simp
    assume d: "distinct candidates"
    let ?others = "filter (\<lambda>d. d \<noteq> c) candidates"
    have "dict_get k c 0 = (\<Sum>d\<leftarrow>?others. duel rs c d)"
      using copeland_duels [OF d c, of rs] k by simp
    also have "\<dots> = real (length ?others) * (1 / 2)"
      by (rule sum_list_const) (simp add: duel_unmentioned [OF un])
    also have "\<dots> = (real (length candidates) - 1) / 2"
      by (simp add: length_filter_other [OF d c])
    finally show "map_of k c = Some ((real (length candidates) - 1) / 2)"
      using map_of_dict_get [of c k 0] c keys by simp
  qed
  have quiet_all: "\<forall>c \<in> set candidates. (\<forall>x \<in> set rs. c \<notin> set (rankings x)) \<longrightarrow>
          map_of p c = Some 0 \<and> map_of b c = Some 0 \<and> map_of w c = Some 0
          \<and> map_of r c = Some 0
          \<and> map_of k c
              = Some (real (count_list candidates c) * (real (length candidates) - 1) / 2)
          \<and> (distinct candidates \<longrightarrow> map_of k c = Some ((real (length candidates) - 1) / 2))"
    using quiet by (intro ballI impI)
  show ?thesis
    by (intro exI [of _ p] exI [of _ b] exI [of _ w] exI [of _ k] exI [of _ r]
        conjI p b w k r keys absent quiet_all)
qed

theorem score_map_completeness_witness:
  "plurality example_rankings [''r1'', ''r2'', ''r3'', ''r4'']
     = Inr [(''r1'', 2), (''r2'', 1), (''r3'', 0), (''r4'', 0)]
   \<and> ranked_pairs example_rankings [''r1'', ''r2'', ''r3'', ''r4'']
     = Inr [(''r1'', 2), (''r2'', 1), (''r3'', 0), (''r4'', 0)]
   \<and> copeland_score example_rankings [''r1'', ''r2'', ''r3'', ''r4'']
     = Inr [(''r1'', 5 / 2), (''r2'', 3 / 2), (''r3'', 1 / 2), (''r4'', 3 / 2)]
   \<and> ''r4'' \<in> set [''r1'', ''r2'', ''r3'', ''r4'']
   \<and> list_all (\<lambda>x. ''r4'' \<notin> set (rankings x)) example_rankings
   \<and> distinct [''r1'', ''r2'', ''r3'', ''r4'']
   \<and> score_of (borda_count example_rankings [''r1'', ''r2'', ''r3'', ''r4'']) ''r4'' = 0
   \<and> score_of (copeland_score example_rankings [''r1'', ''r2'', ''r3'', ''r4'']) ''r4'' = (4 - 1) / 2
   \<and> copeland_score [] [''A'', ''B'', ''A''] = Inr [(''A'', 2), (''B'', 1)]
   \<and> ''A'' \<in> set [''A'', ''B'', ''A'']
   \<and> list_all (\<lambda>x. ''A'' \<notin> set (rankings x)) []
   \<and> score_of (copeland_score [] [''A'', ''B'', ''A'']) ''A'' = 2 * (3 - 1) / 2"
proof -
  let ?cs = "[''r1'', ''r2'', ''r3'', ''r4'']"
  let ?ds = "[''A'', ''B'', ''A'']"
  have v4: "copeland_score [] ?ds = Inr [(''A'', 2), (''B'', 1)]"
    by code_simp
  have c': "''A'' \<in> set ?ds"
    by simp
  have un': "\<forall>x \<in> set ([] :: Ranking list). ''A'' \<notin> set (rankings x)"
    by simp
  from score_map_completeness [of "[]" ?ds] obtain k'
    where k': "copeland_score [] ?ds = Inr k'"
      and q': "\<forall>c \<in> set ?ds. (\<forall>x \<in> set ([] :: Ranking list). c \<notin> set (rankings x)) \<longrightarrow>
          map_of k' c = Some (real (count_list ?ds c) * (real (length ?ds) - 1) / 2)"
    by blast
  from q' c' un' have "map_of k' ''A'' = Some (real (count_list ?ds ''A'') * (real (length ?ds) - 1) / 2)"
    by blast
  then have s': "score_of (copeland_score [] ?ds) ''A'' = 2 * (3 - 1) / 2"
    using k' by (simp add: score_of_def dict_get_def)
  have v1: "plurality example_rankings ?cs = Inr [(''r1'', 2), (''r2'', 1), (''r3'', 0), (''r4'', 0)]"
    by code_simp
  have v2: "ranked_pairs example_rankings ?cs = Inr [(''r1'', 2), (''r2'', 1), (''r3'', 0), (''r4'', 0)]"
    by code_simp
  have v3: "copeland_score example_rankings ?cs
      = Inr [(''r1'', 5 / 2), (''r2'', 3 / 2), (''r3'', 1 / 2), (''r4'', 3 / 2)]"
    by code_simp
  have c: "''r4'' \<in> set ?cs"
    by simp
  have un: "\<forall>x \<in> set example_rankings. ''r4'' \<notin> set (rankings x)"
    by (simp add: example_rankings_def)
  have d: "distinct ?cs"
    by simp
  from score_map_completeness [of example_rankings ?cs] obtain b k
    where b: "borda_count example_rankings ?cs = Inr b"
      and k: "copeland_score example_rankings ?cs = Inr k"
      and q: "\<forall>c \<in> set ?cs. (\<forall>x \<in> set example_rankings. c \<notin> set (rankings x)) \<longrightarrow>
          map_of b c = Some 0
          \<and> (distinct ?cs \<longrightarrow> map_of k c = Some ((real (length ?cs) - 1) / 2))"
    by blast
  from q c un d have "map_of b ''r4'' = Some 0"
    and "map_of k ''r4'' = Some ((real (length ?cs) - 1) / 2)"
    by blast+
  then have s: "score_of (borda_count example_rankings ?cs) ''r4'' = 0"
      "score_of (copeland_score example_rankings ?cs) ''r4'' = (4 - 1) / 2"
    using b k by (simp_all add: score_of_def dict_get_def)
  show ?thesis
    using un by (intro conjI v1 v2 v3 c d s v4 c' s') (simp_all add: list_all_iff)
qed

text \<open>
  The claim as it is written fails for \<open>copeland_score\<close>: with no ranking at all, the two
  candidates \<open>A\<close> and \<open>B\<close> are mentioned nowhere and each holds \<open>1/2\<close>, not \<open>0\<close>.
\<close>

theorem score_map_completeness_counterexample:
  "''A'' \<in> set [''A'', ''B'']
   \<and> list_all (\<lambda>x. ''A'' \<notin> set (rankings x)) []
   \<and> copeland_score [] [''A'', ''B''] = Inr [(''A'', 1 / 2), (''B'', 1 / 2)]
   \<and> map_of [(''A'', 1 / 2), (''B'', 1 / 2)] ''A'' \<noteq> Some (0 :: real)"
proof -
  have "copeland_score [] [''A'', ''B''] = Inr [(''A'', 1 / 2), (''B'', 1 / 2)]"
    by code_simp
  then show ?thesis
    by simp
qed

subsection \<open>Pairwise agreement\<close>

lemma agreement_loop:
  "for_each ps (\<lambda>(c1, c2) (agreements, comparisons).
       if c1 \<in> set (rankings r1) \<and> c2 \<in> set (rankings r1) \<and>
          c1 \<in> set (rankings r2) \<and> c2 \<in> set (rankings r2)
       then
         bind (list_index (rankings r1) c1) (\<lambda>pos1_r1.
         bind (list_index (rankings r1) c2) (\<lambda>pos2_r1.
         bind (list_index (rankings r2) c1) (\<lambda>pos1_r2.
         bind (list_index (rankings r2) c2) (\<lambda>pos2_r2.
           let r1_prefers_c1 = (pos1_r1 < pos2_r1);
               r2_prefers_c1 = (pos1_r2 < pos2_r2)
           in Inr (if r1_prefers_c1 = r2_prefers_c1 then agreements + 1 else agreements,
                   comparisons + 1)))))
       else Inr (agreements, comparisons))
     (a, n)
   = Inr (a + int (length (filter (\<lambda>(c1, c2).
                (first_index (rankings r1) c1 < first_index (rankings r1) c2)
                 = (first_index (rankings r2) c1 < first_index (rankings r2) c2))
              (filter (\<lambda>(c1, c2). c1 \<in> set (rankings r1) \<and> c2 \<in> set (rankings r1)
                        \<and> c1 \<in> set (rankings r2) \<and> c2 \<in> set (rankings r2)) ps))),
          n + int (length (filter (\<lambda>(c1, c2). c1 \<in> set (rankings r1) \<and> c2 \<in> set (rankings r1)
                        \<and> c1 \<in> set (rankings r2) \<and> c2 \<in> set (rankings r2)) ps)))"
proof (induction ps arbitrary: a n)
  case Nil
  show ?case by simp
next
  case (Cons pr ps)
  obtain c1 c2 where eq: "pr = (c1, c2)"
    by (cases pr)
  show ?case
    by (simp add: eq Cons.IH list_index_def Let_def)
qed

lemma calculate_pairwise_agreement_eq:
  "calculate_pairwise_agreement r1 r2 candidates = Inr (pairwise_agreement r1 r2 candidates)"
proof -
  let ?n = "length (comparable_pairs r1 r2 candidates)"
  have "?n = 0 \<longleftrightarrow> comparable_pairs r1 r2 candidates = []"
    by simp
  then show ?thesis
    unfolding calculate_pairwise_agreement_def for_each_pairs agreement_loop
    by (simp add: pairwise_agreement_def comparable_pairs_def [symmetric]
        agreeing_pairs_def [symmetric] truediv_def)
qed

lemma comparable_pairs_sym: "comparable_pairs r1 r2 candidates = comparable_pairs r2 r1 candidates"
  unfolding comparable_pairs_def by (rule filter_cong) auto

lemma agreeing_pairs_sym: "agreeing_pairs r1 r2 candidates = agreeing_pairs r2 r1 candidates"
  unfolding agreeing_pairs_def comparable_pairs_sym [of r1 r2] by (rule filter_cong) auto

lemma pairwise_agreement_sym:
  "pairwise_agreement r1 r2 candidates = pairwise_agreement r2 r1 candidates"
  by (simp add: pairwise_agreement_def comparable_pairs_sym [of r1 r2] agreeing_pairs_sym [of r1 r2])

lemma pairwise_agreement_range:
  "0 \<le> pairwise_agreement r1 r2 candidates \<and> pairwise_agreement r1 r2 candidates \<le> 1"
proof -
  have "length (agreeing_pairs r1 r2 candidates) \<le> length (comparable_pairs r1 r2 candidates)"
    by (simp add: agreeing_pairs_def)
  then show ?thesis
    by (simp add: pairwise_agreement_def divide_le_eq_1)
qed

lemma pairwise_agreement_same_order:
  assumes "rankings r1 = rankings r2" and "comparable_pairs r1 r2 candidates \<noteq> []"
  shows "pairwise_agreement r1 r2 candidates = 1"
proof -
  have "agreeing_pairs r1 r2 candidates = comparable_pairs r1 r2 candidates"
    by (simp add: agreeing_pairs_def assms(1))
  with assms(2) show ?thesis
    by (simp add: pairwise_agreement_def)
qed

lemma entry_sym: "entry candidates r1 r2 = entry candidates r2 r1"
  by (simp add: entry_def pairwise_agreement_sym [of r1 r2])

lemma entry_range: "0 \<le> entry candidates r1 r2 \<and> entry candidates r1 r2 \<le> 1"
  using pairwise_agreement_range [of r1 r2 candidates] by (simp add: entry_def)

lemma entry_self: "entry candidates r r = 1"
  by (simp add: entry_def)

subsection \<open>The agreement matrix\<close>

lemma bind_return [simp]: "bind m Inr = m"
  by (cases m) simp_all

lemma last_by_judge_snoc:
  "last_by_judge (xs @ [x]) q = (if judge x = q then Some x else last_by_judge xs q)"
  by (simp add: last_by_judge_def)

lemma last_by_judge_Nil [simp]: "last_by_judge [] q = None"
  by (simp add: last_by_judge_def)

lemma find_Some_member: "find P xs = Some x \<Longrightarrow> P x \<and> x \<in> set xs"
  by (induction xs) (auto split: if_splits)

lemma last_by_judge_Some:
  "j \<in> judge ` set rs \<Longrightarrow> \<exists>r \<in> set rs. last_by_judge rs j = Some r \<and> judge r = j"
proof -
  assume "j \<in> judge ` set rs"
  then have "find (\<lambda>r. judge r = j) (rev rs) \<noteq> None"
    by (auto simp: find_None_iff)
  then obtain r where r: "find (\<lambda>r. judge r = j) (rev rs) = Some r"
    by blast
  then have "judge r = j" and "r \<in> set rs"
    using find_Some_member [of "\<lambda>r. judge r = j" "rev rs" r] by simp_all
  with r show ?thesis
    by (auto simp: last_by_judge_def)
qed

lemma agreement_body:
  "(\<lambda>r2 matrix.
      if ranking_id r1 = ranking_id r2
      then dict2_setitem matrix (judge r1) (judge r2) 1
      else bind (calculate_pairwise_agreement r1 r2 candidates) (\<lambda>a.
             dict2_setitem matrix (judge r1) (judge r2) a))
   = (\<lambda>r2 matrix. dict2_setitem matrix (judge r1) (judge r2) (entry candidates r1 r2))"
  by (simp add: fun_eq_iff entry_def calculate_pairwise_agreement_eq)

lemma agreement_row:
  assumes "matrix_over js M0" and "judge r1 \<in> set js" and "\<forall>r \<in> set xs. judge r \<in> set js"
  shows "\<exists>M. for_each xs (\<lambda>r2 matrix.
              dict2_setitem matrix (judge r1) (judge r2) (entry candidates r1 r2)) M0 = Inr M
          \<and> matrix_over js M \<and> dict_keys M = dict_keys M0
          \<and> (\<forall>p q. dict2_get M p q 0
                = (if p = judge r1
                   then (case last_by_judge xs q of
                           Some r2 \<Rightarrow> entry candidates r1 r2
                         | None \<Rightarrow> dict2_get M0 p q 0)
                   else dict2_get M0 p q 0))"
  using assms(3)
proof (induction xs rule: rev_induct)
  case Nil
  with assms(1) show ?case by simp
next
  case (snoc x xs)
  from snoc obtain M1
    where M1: "for_each xs (\<lambda>r2 matrix.
              dict2_setitem matrix (judge r1) (judge r2) (entry candidates r1 r2)) M0 = Inr M1"
      "matrix_over js M1" "dict_keys M1 = dict_keys M0"
      and c1: "\<forall>p q. dict2_get M1 p q 0
                = (if p = judge r1
                   then (case last_by_judge xs q of
                           Some r2 \<Rightarrow> entry candidates r1 r2
                         | None \<Rightarrow> dict2_get M0 p q 0)
                   else dict2_get M0 p q 0)"
    by auto
  have x: "judge x \<in> set js"
    using snoc.prems by simp
  from dict2_setitem_over [OF M1(2) assms(2) x, of "entry candidates r1 x" 0] obtain M
    where M: "dict2_setitem M1 (judge r1) (judge x) (entry candidates r1 x) = Inr M"
      "matrix_over js M" "dict_keys M = dict_keys M1"
      and c: "\<forall>p q. dict2_get M p q 0
          = (if p = judge r1 \<and> q = judge x then entry candidates r1 x else dict2_get M1 p q 0)"
    by blast
  have "for_each (xs @ [x]) (\<lambda>r2 matrix.
              dict2_setitem matrix (judge r1) (judge r2) (entry candidates r1 r2)) M0 = Inr M"
    by (simp add: for_each_append M1(1) M(1))
  moreover have "\<forall>p q. dict2_get M p q 0
                = (if p = judge r1
                   then (case last_by_judge (xs @ [x]) q of
                           Some r2 \<Rightarrow> entry candidates r1 r2
                         | None \<Rightarrow> dict2_get M0 p q 0)
                   else dict2_get M0 p q 0)"
    using c c1 by (auto simp: last_by_judge_snoc)
  ultimately show ?case
    using M(2,3) M1(3) by auto
qed

lemma agreement_rows:
  assumes "matrix_over js M0" and "\<forall>r \<in> set rs. judge r \<in> set js"
    and "\<forall>r \<in> set xs. judge r \<in> set js"
  shows "\<exists>M. for_each xs (\<lambda>r1. for_each rs (\<lambda>r2 matrix.
              dict2_setitem matrix (judge r1) (judge r2) (entry candidates r1 r2))) M0 = Inr M
          \<and> matrix_over js M \<and> dict_keys M = dict_keys M0
          \<and> (\<forall>p q. dict2_get M p q 0
                = (case last_by_judge xs p of
                     Some r1 \<Rightarrow> (case last_by_judge rs q of
                                   Some r2 \<Rightarrow> entry candidates r1 r2
                                 | None \<Rightarrow> dict2_get M0 p q 0)
                   | None \<Rightarrow> dict2_get M0 p q 0))"
  using assms(3)
proof (induction xs rule: rev_induct)
  case Nil
  with assms(1) show ?case by simp
next
  case (snoc x xs)
  from snoc obtain M1
    where M1: "for_each xs (\<lambda>r1. for_each rs (\<lambda>r2 matrix.
              dict2_setitem matrix (judge r1) (judge r2) (entry candidates r1 r2))) M0 = Inr M1"
      "matrix_over js M1" "dict_keys M1 = dict_keys M0"
      and c1: "\<forall>p q. dict2_get M1 p q 0
                = (case last_by_judge xs p of
                     Some r1 \<Rightarrow> (case last_by_judge rs q of
                                   Some r2 \<Rightarrow> entry candidates r1 r2
                                 | None \<Rightarrow> dict2_get M0 p q 0)
                   | None \<Rightarrow> dict2_get M0 p q 0)"
    by auto
  have x: "judge x \<in> set js"
    using snoc.prems by simp
  from agreement_row [OF M1(2) x assms(2), of candidates] obtain M
    where M: "for_each rs (\<lambda>r2 matrix.
              dict2_setitem matrix (judge x) (judge r2) (entry candidates x r2)) M1 = Inr M"
      "matrix_over js M" "dict_keys M = dict_keys M1"
      and c: "\<forall>p q. dict2_get M p q 0
                = (if p = judge x
                   then (case last_by_judge rs q of
                           Some r2 \<Rightarrow> entry candidates x r2
                         | None \<Rightarrow> dict2_get M1 p q 0)
                   else dict2_get M1 p q 0)"
    by blast
  have "for_each (xs @ [x]) (\<lambda>r1. for_each rs (\<lambda>r2 matrix.
              dict2_setitem matrix (judge r1) (judge r2) (entry candidates r1 r2))) M0 = Inr M"
    by (simp add: for_each_append M1(1) M(1))
  moreover have "\<forall>p q. dict2_get M p q 0
                = (case last_by_judge (xs @ [x]) p of
                     Some r1 \<Rightarrow> (case last_by_judge rs q of
                                   Some r2 \<Rightarrow> entry candidates r1 r2
                                 | None \<Rightarrow> dict2_get M0 p q 0)
                   | None \<Rightarrow> dict2_get M0 p q 0)"
    using c c1 by (auto simp: last_by_judge_snoc split: option.splits)
  ultimately show ?case
    using M(2,3) M1(3) by auto
qed

lemma agreement_matrix_entries:
  "\<exists>M. agreement_matrix rs candidates = Inr M
     \<and> matrix_over (map judge rs) M
     \<and> (\<forall>j1 \<in> judge ` set rs. \<forall>j2 \<in> judge ` set rs.
          \<exists>r1 \<in> set rs. \<exists>r2 \<in> set rs.
            last_by_judge rs j1 = Some r1 \<and> last_by_judge rs j2 = Some r2
            \<and> dict2_get M j1 j2 0 = entry candidates r1 r2)"
proof -
  let ?js = "map judge rs"
  let ?M0 = "dict_comp (\<lambda>j1. fromkeys ?js (0 :: real)) ?js"
  have js: "\<forall>r \<in> set rs. judge r \<in> set ?js"
    by simp
  from agreement_rows [OF matrix_over_init js js] obtain M
    where M: "for_each rs (\<lambda>r1. for_each rs (\<lambda>r2 matrix.
              dict2_setitem matrix (judge r1) (judge r2) (entry candidates r1 r2))) ?M0 = Inr M"
      "matrix_over ?js M"
      and c: "\<forall>p q. dict2_get M p q 0
                = (case last_by_judge rs p of
                     Some r1 \<Rightarrow> (case last_by_judge rs q of
                                   Some r2 \<Rightarrow> entry candidates r1 r2
                                 | None \<Rightarrow> dict2_get ?M0 p q 0)
                   | None \<Rightarrow> dict2_get ?M0 p q 0)"
    by blast
  have "agreement_matrix rs candidates = Inr M"
    unfolding agreement_matrix_def Let_def agreement_body by (rule M(1))
  moreover have "\<exists>r1 \<in> set rs. \<exists>r2 \<in> set rs.
            last_by_judge rs j1 = Some r1 \<and> last_by_judge rs j2 = Some r2
            \<and> dict2_get M j1 j2 0 = entry candidates r1 r2"
    if "j1 \<in> judge ` set rs" and "j2 \<in> judge ` set rs" for j1 j2
  proof -
    from last_by_judge_Some [OF that(1)] obtain r1
      where r1: "r1 \<in> set rs" "last_by_judge rs j1 = Some r1"
      by blast
    from last_by_judge_Some [OF that(2)] obtain r2
      where r2: "r2 \<in> set rs" "last_by_judge rs j2 = Some r2"
      by blast
    from c r1(2) r2(2) have "dict2_get M j1 j2 0 = entry candidates r1 r2"
      by simp
    with r1 r2 show ?thesis
      by blast
  qed
  ultimately show ?thesis
    using M(2) by blast
qed

text \<open>
  Claim C5.  \<open>agreement_matrix\<close> returns a matrix over the judges of the rankings.  For
  all judges \<open>j1\<close>, \<open>j2\<close> that occur, the entries \<open>[j1][j2]\<close> and \<open>[j2][j1]\<close> are equal and
  lie in \<open>[0, 1]\<close>, and every diagonal entry is \<open>1\<close>, also when a judge occurs on several
  rankings: the entry that remains is the one written for the last ranking of \<open>j1\<close> and
  the last ranking of \<open>j2\<close>.
\<close>

theorem agreement_matrix_invariant:
  "\<exists>M. agreement_matrix rs candidates = Inr M
     \<and> matrix_over (map judge rs) M
     \<and> (\<forall>j1 \<in> judge ` set rs. \<forall>j2 \<in> judge ` set rs.
          dict2_get M j1 j2 0 = dict2_get M j2 j1 0
          \<and> 0 \<le> dict2_get M j1 j2 0 \<and> dict2_get M j1 j2 0 \<le> 1)
     \<and> (\<forall>j \<in> judge ` set rs. dict2_get M j j 0 = 1)"
proof -
  from agreement_matrix_entries [of rs candidates] obtain M
    where M: "agreement_matrix rs candidates = Inr M" "matrix_over (map judge rs) M"
      and e: "\<forall>j1 \<in> judge ` set rs. \<forall>j2 \<in> judge ` set rs.
          \<exists>r1 \<in> set rs. \<exists>r2 \<in> set rs.
            last_by_judge rs j1 = Some r1 \<and> last_by_judge rs j2 = Some r2
            \<and> dict2_get M j1 j2 0 = entry candidates r1 r2"
    by blast
  have sym: "dict2_get M j1 j2 0 = dict2_get M j2 j1 0
          \<and> 0 \<le> dict2_get M j1 j2 0 \<and> dict2_get M j1 j2 0 \<le> 1"
    if j: "j1 \<in> judge ` set rs" "j2 \<in> judge ` set rs" for j1 j2
  proof -
    from e j obtain r1 r2
      where a: "last_by_judge rs j1 = Some r1" "last_by_judge rs j2 = Some r2"
        "dict2_get M j1 j2 0 = entry candidates r1 r2"
      by blast
    from e j obtain r2' r1'
      where b: "last_by_judge rs j2 = Some r2'" "last_by_judge rs j1 = Some r1'"
        "dict2_get M j2 j1 0 = entry candidates r2' r1'"
      by blast
    from a b have "dict2_get M j2 j1 0 = entry candidates r2 r1"
      by simp
    with a(3) entry_sym [of candidates r1 r2] entry_range [of candidates r1 r2] show ?thesis
      by simp
  qed
  have diag: "dict2_get M j j 0 = 1" if j: "j \<in> judge ` set rs" for j
  proof -
    from e j obtain r1 r2
      where "last_by_judge rs j = Some r1" "last_by_judge rs j = Some r2"
        "dict2_get M j j 0 = entry candidates r1 r2"
      by blast
    then show ?thesis
      by (simp add: entry_self)
  qed
  have s: "\<forall>j1 \<in> judge ` set rs. \<forall>j2 \<in> judge ` set rs.
          dict2_get M j1 j2 0 = dict2_get M j2 j1 0
          \<and> 0 \<le> dict2_get M j1 j2 0 \<and> dict2_get M j1 j2 0 \<le> 1"
    using sym by (intro ballI)
  have d: "\<forall>j \<in> judge ` set rs. dict2_get M j j 0 = 1"
    using diag by (intro ballI)
  show ?thesis
    by (intro exI [of _ M] conjI M s d)
qed

theorem agreement_matrix_invariant_witness:
  "agreement_matrix repeated_judge_rankings [''r1'', ''r2'']
     = Inr [(''j1'', [(''j1'', 1), (''j2'', 0)]), (''j2'', [(''j1'', 0), (''j2'', 1)])]
   \<and> ''j1'' \<in> judge ` set repeated_judge_rankings
   \<and> ''j2'' \<in> judge ` set repeated_judge_rankings
   \<and> score_of (bind (agreement_matrix repeated_judge_rankings [''r1'', ''r2''])
         (\<lambda>M. dict_getitem M ''j1'')) ''j1'' = 1
   \<and> score_of (bind (agreement_matrix repeated_judge_rankings [''r1'', ''r2''])
         (\<lambda>M. dict_getitem M ''j1'')) ''j2''
     = score_of (bind (agreement_matrix repeated_judge_rankings [''r1'', ''r2''])
         (\<lambda>M. dict_getitem M ''j2'')) ''j1''"
proof -
  let ?cs = "[''r1'', ''r2'']"
  have v: "agreement_matrix repeated_judge_rankings ?cs
     = Inr [(''j1'', [(''j1'', 1), (''j2'', 0)]), (''j2'', [(''j1'', 0), (''j2'', 1)])]"
    by code_simp
  have j1: "''j1'' \<in> judge ` set repeated_judge_rankings"
    and j2: "''j2'' \<in> judge ` set repeated_judge_rankings"
    by (simp_all add: repeated_judge_rankings_def)
  from agreement_matrix_invariant [of repeated_judge_rankings ?cs] obtain M
    where all: "agreement_matrix repeated_judge_rankings ?cs = Inr M
      \<and> matrix_over (map judge repeated_judge_rankings) M
      \<and> (\<forall>j1 \<in> judge ` set repeated_judge_rankings. \<forall>j2 \<in> judge ` set repeated_judge_rankings.
          dict2_get M j1 j2 0 = dict2_get M j2 j1 0
          \<and> 0 \<le> dict2_get M j1 j2 0 \<and> dict2_get M j1 j2 0 \<le> 1)
      \<and> (\<forall>j \<in> judge ` set repeated_judge_rankings. dict2_get M j j 0 = 1)" ..
  from all have M: "agreement_matrix repeated_judge_rankings ?cs = Inr M"
    and over: "matrix_over (map judge repeated_judge_rankings) M"
    by (rule conjunct1, rule conjunct2 [THEN conjunct1])
  from all have sym: "\<forall>j1 \<in> judge ` set repeated_judge_rankings. \<forall>j2 \<in> judge ` set repeated_judge_rankings.
          dict2_get M j1 j2 0 = dict2_get M j2 j1 0
          \<and> 0 \<le> dict2_get M j1 j2 0 \<and> dict2_get M j1 j2 0 \<le> 1"
    by (rule conjunct2 [THEN conjunct2, THEN conjunct1])
  from all have diag: "\<forall>j \<in> judge ` set repeated_judge_rankings. dict2_get M j j 0 = 1"
    by (rule conjunct2 [THEN conjunct2, THEN conjunct2])
  have row: "score_of (bind (agreement_matrix repeated_judge_rankings ?cs)
         (\<lambda>M. dict_getitem M a)) b = dict2_get M a b 0"
    if "a \<in> judge ` set repeated_judge_rankings" for a b
  proof -
    from matrix_row [OF over, of a] that obtain row
      where "dict_getitem M a = Inr row" "dict_get M a [] = row"
      by auto
    then show ?thesis
      by (simp add: M score_of_def dict2_get_def)
  qed
  from diag j1 have d: "dict2_get M ''j1'' ''j1'' 0 = 1"
    by (rule bspec)
  from sym j1 have "\<forall>j2 \<in> judge ` set repeated_judge_rankings.
          dict2_get M ''j1'' j2 0 = dict2_get M j2 ''j1'' 0
          \<and> 0 \<le> dict2_get M ''j1'' j2 0 \<and> dict2_get M ''j1'' j2 0 \<le> 1"
    by (rule bspec)
  from this j2 have "dict2_get M ''j1'' ''j2'' 0 = dict2_get M ''j2'' ''j1'' 0
          \<and> 0 \<le> dict2_get M ''j1'' ''j2'' 0 \<and> dict2_get M ''j1'' ''j2'' 0 \<le> 1"
    by (rule bspec)
  then have s: "dict2_get M ''j1'' ''j2'' 0 = dict2_get M ''j2'' ''j1'' 0"
    by (rule conjunct1)
  have r1: "score_of (bind (agreement_matrix repeated_judge_rankings ?cs)
         (\<lambda>M. dict_getitem M ''j1'')) ''j1'' = 1"
    by (simp only: row [OF j1] d)
  have r2: "score_of (bind (agreement_matrix repeated_judge_rankings ?cs)
         (\<lambda>M. dict_getitem M ''j1'')) ''j2''
     = score_of (bind (agreement_matrix repeated_judge_rankings ?cs)
         (\<lambda>M. dict_getitem M ''j2'')) ''j1''"
    by (simp only: row [OF j1] row [OF j2] s)
  show ?thesis
    by (intro conjI v j1 j2 r1 r2)
qed

subsection \<open>Diversity\<close>

lemma diversity_loop:
  assumes "matrix_over js M" and "\<forall>(j1, j2) \<in> set ps. j1 \<in> set js \<and> j2 \<in> set js"
  shows "for_each ps (\<lambda>(j1, j2) (total_agreement, count).
            bind (dict_getitem M j1) (\<lambda>row.
            bind (dict_getitem row j2) (\<lambda>a.
              Inr (total_agreement + a, count + 1)))) (t, n)
       = Inr (t + (\<Sum>(j1, j2)\<leftarrow>ps. dict2_get M j1 j2 0), n + int (length ps))"
  using assms(2)
proof (induction ps arbitrary: t n)
  case Nil
  show ?case by simp
next
  case (Cons pr ps)
  obtain j1 j2 where eq: "pr = (j1, j2)"
    by (cases pr)
  with Cons.prems have "j1 \<in> set js" and "j2 \<in> set js"
    by auto
  from matrix_cell [OF assms(1) this, of 0] obtain row
    where row: "dict_getitem M j1 = Inr row" "dict_getitem row j2 = Inr (dict2_get M j1 j2 0)"
    by blast
  have "for_each ps (\<lambda>(j1, j2) (total_agreement, count).
            bind (dict_getitem M j1) (\<lambda>row.
            bind (dict_getitem row j2) (\<lambda>a.
              Inr (total_agreement + a, count + 1)))) (t + dict2_get M j1 j2 0, n + 1)
       = Inr (t + dict2_get M j1 j2 0 + (\<Sum>(j1, j2)\<leftarrow>ps. dict2_get M j1 j2 0), n + 1 + int (length ps))"
    using Cons.prems by (intro Cons.IH) simp
  then show ?case
    by (simp add: eq row add.assoc)
qed

lemma diversity_score_eq:
  assumes "\<not> length rs < 2" and "agreement_matrix rs candidates = Inr M"
    and "matrix_over (map judge rs) M"
  shows "diversity_score rs candidates
       = Inr (if pairs_after (dict_keys M) = [] then 0
              else 1 - (\<Sum>(j1, j2)\<leftarrow>pairs_after (dict_keys M). dict2_get M j1 j2 0)
                       / real (length (pairs_after (dict_keys M))))"
proof -
  let ?ps = "pairs_after (dict_keys M)"
  have mem: "\<forall>(j1, j2) \<in> set ?ps. j1 \<in> set (map judge rs) \<and> j2 \<in> set (map judge rs)"
    using assms(3) by (auto simp: matrix_over_def dest: set_pairs_after)
  have loop: "for_each ?ps (\<lambda>(j1, j2) (total_agreement, count).
            bind (dict_getitem M j1) (\<lambda>row.
            bind (dict_getitem row j2) (\<lambda>a.
              Inr (total_agreement + a, count + 1)))) (0, 0)
       = Inr (0 + (\<Sum>(j1, j2)\<leftarrow>?ps. dict2_get M j1 j2 0), 0 + int (length ?ps))"
    by (rule diversity_loop [OF assms(3) mem])
  show ?thesis
    unfolding diversity_score_def Let_def for_each_pairs
    using assms(1) by (simp add: assms(2) loop truediv_def)
qed

lemma diversity_single_judge:
  assumes "\<forall>r \<in> set rs. judge r = j"
  shows "diversity_score rs candidates = Inr 0"
proof (cases "length rs < 2")
  case True
  then show ?thesis
    by (simp add: diversity_score_def)
next
  case False
  from agreement_matrix_entries [of rs candidates] obtain M
    where M: "agreement_matrix rs candidates = Inr M" "matrix_over (map judge rs) M"
    by blast
  have "set (dict_keys M) \<subseteq> {j}" and "distinct (dict_keys M)"
    using M(2) assms by (auto simp: matrix_over_def)
  then have "length (dict_keys M) \<le> 1"
    by (metis card_mono distinct_card finite.emptyI finite.insertI card.empty card.insert
        empty_iff One_nat_def)
  then have "pairs_after (dict_keys M) = []"
    by (cases "dict_keys M") auto
  then show ?thesis
    by (simp add: diversity_score_eq [OF False M])
qed

text \<open>
  Claim C6, as the code has it.  For at least two rankings whose orders are all the same
  order, in which two entries of the candidate list (entries at different positions)
  both occur, \<open>diversity_score\<close> returns \<open>0\<close>.
\<close>

theorem diversity_unanimity:
  assumes "2 \<le> length rs"
    and "\<forall>r \<in> set rs. rankings r = ord"
    and "\<exists>c1 c2. (c1, c2) \<in> set (pairs_after candidates) \<and> c1 \<in> set ord \<and> c2 \<in> set ord"
  shows "diversity_score rs candidates = Inr 0"
proof -
  let ?ps = "\<lambda>M. pairs_after (dict_keys M)"
  have long: "\<not> length rs < 2"
    using assms(1) by simp
  from agreement_matrix_entries [of rs candidates] obtain M
    where M: "agreement_matrix rs candidates = Inr M" "matrix_over (map judge rs) M"
      and e: "\<forall>j1 \<in> judge ` set rs. \<forall>j2 \<in> judge ` set rs.
          \<exists>r1 \<in> set rs. \<exists>r2 \<in> set rs.
            last_by_judge rs j1 = Some r1 \<and> last_by_judge rs j2 = Some r2
            \<and> dict2_get M j1 j2 0 = entry candidates r1 r2"
    by blast
  have one: "entry candidates r1 r2 = 1" if "r1 \<in> set rs" and "r2 \<in> set rs" for r1 r2
  proof -
    have same: "rankings r1 = ord" "rankings r2 = ord"
      using that assms(2) by auto
    from assms(3) obtain c1 c2
      where "(c1, c2) \<in> set (pairs_after candidates)" "c1 \<in> set ord" "c2 \<in> set ord"
      by blast
    then have "(c1, c2) \<in> set (comparable_pairs r1 r2 candidates)"
      by (simp add: comparable_pairs_def same)
    then have "comparable_pairs r1 r2 candidates \<noteq> []"
      by auto
    with same show ?thesis
      by (simp add: entry_def pairwise_agreement_same_order)
  qed
  have cells: "\<forall>pr \<in> set (?ps M). (case pr of (j1, j2) \<Rightarrow> dict2_get M j1 j2 0) = 1"
  proof
    fix pr assume pr: "pr \<in> set (?ps M)"
    obtain j1 j2 where eq: "pr = (j1, j2)"
      by (cases pr)
    with pr M(2) have "j1 \<in> judge ` set rs" and "j2 \<in> judge ` set rs"
      by (auto simp: matrix_over_def dest: set_pairs_after)
    with e obtain r1 r2 where "r1 \<in> set rs" "r2 \<in> set rs"
      "dict2_get M j1 j2 0 = entry candidates r1 r2"
      by blast
    then show "(case pr of (j1, j2) \<Rightarrow> dict2_get M j1 j2 0) = 1"
      by (simp add: eq one)
  qed
  have "(\<Sum>(j1, j2)\<leftarrow>?ps M. dict2_get M j1 j2 0) = real (length (?ps M))"
    using cells by (rule sum_list_eq_length)
  then show ?thesis
    by (simp add: diversity_score_eq [OF long M])
qed

theorem diversity_unanimity_witness:
  "2 \<le> length unanimous_rankings
   \<and> list_all (\<lambda>r. rankings r = [''r1'', ''r2'', ''r3'']) unanimous_rankings
   \<and> (''r1'', ''r2'') \<in> set (pairs_after [''r1'', ''r2'', ''r3''])
   \<and> ''r1'' \<in> set [''r1'', ''r2'', ''r3''] \<and> ''r2'' \<in> set [''r1'', ''r2'', ''r3'']
   \<and> diversity_score unanimous_rankings [''r1'', ''r2'', ''r3''] = Inr 0"
proof -
  have h1: "2 \<le> length unanimous_rankings"
    by (simp add: unanimous_rankings_def)
  have h2: "\<forall>r \<in> set unanimous_rankings. rankings r = [''r1'', ''r2'', ''r3'']"
    by (simp add: unanimous_rankings_def)
  have p: "(''r1'', ''r2'') \<in> set (pairs_after [''r1'', ''r2'', ''r3''])"
    by simp
  have h3: "\<exists>c1 c2. (c1, c2) \<in> set (pairs_after [''r1'', ''r2'', ''r3''])
      \<and> c1 \<in> set [''r1'', ''r2'', ''r3''] \<and> c2 \<in> set [''r1'', ''r2'', ''r3'']"
    using p by (intro exI [of _ "''r1''"] exI [of _ "''r2''"]) simp
  have r: "diversity_score unanimous_rankings [''r1'', ''r2'', ''r3''] = Inr 0"
    by (rule diversity_unanimity [OF h1 h2 h3])
  show ?thesis
    using h2 by (intro conjI h1 p r) (simp_all add: list_all_iff)
qed

text \<open>
  The claim as it is written fails where no candidate pair is comparable: two judges who
  rank the only candidate identically have agreement \<open>0\<close>, by the guard
  \<open>if comparisons > 0 else 0.0\<close>, and \<open>diversity_score\<close> returns \<open>1\<close>.
\<close>

theorem diversity_unanimity_counterexample:
  "2 \<le> length single_candidate_rankings
   \<and> list_all (\<lambda>r. rankings r = [''x'']) single_candidate_rankings
   \<and> diversity_score single_candidate_rankings [''x''] = Inr 1
   \<and> (Inr 1 :: real result) \<noteq> Inr 0"
proof -
  have "diversity_score single_candidate_rankings [''x''] = Inr 1"
    by code_simp
  then show ?thesis
    by (simp add: single_candidate_rankings_def)
qed

subsection \<open>No function of the core raises\<close>

lemma max_loop_total:
  "\<forall>x \<in> set xs. \<exists>v. key x = Inr v \<Longrightarrow> \<exists>r. max_loop xs key best bk = Inr r"
proof (induction xs arbitrary: best bk)
  case Nil
  show ?case by simp
next
  case (Cons x xs)
  then obtain v where v: "key x = Inr v"
    by auto
  from Cons have "\<exists>r. max_loop xs key x v = Inr r" and "\<exists>r. max_loop xs key best bk = Inr r"
    by simp_all
  with v show ?case
    by simp
qed

lemma get_winner_total: "\<exists>w. get_winner scores = Inr w"
proof (cases scores)
  case Nil
  then show ?thesis
    by (simp add: get_winner_def)
next
  case (Cons p rest)
  have key: "\<forall>k \<in> set (dict_keys scores). \<exists>v. dict_getitem scores k = Inr v"
    using dict_getitem_present [of _ scores] by blast
  then obtain v where v: "dict_getitem scores (fst p) = Inr v"
    using Cons by (auto simp: dict_keys_def)
  have "\<exists>r. max_loop (map fst rest) (\<lambda>k. dict_getitem scores k) (fst p) v = Inr r"
    using key Cons by (intro max_loop_total) (simp add: dict_keys_def)
  with v Cons show ?thesis
    by (simp add: get_winner_def max_key_def dict_keys_def)
qed

lemma map_result_exists:
  "\<forall>x \<in> set xs. \<exists>y. f x = Inr y \<Longrightarrow> \<exists>ys. map_result f xs = Inr ys"
proof (induction xs)
  case Nil
  show ?case by simp
next
  case (Cons x xs)
  then obtain y ys where "f x = Inr y" and "map_result f xs = Inr ys"
    by auto
  then show ?case
    by simp
qed

lemma get_ranking_total: "\<exists>l. get_ranking scores = Inr l"
proof -
  have "\<forall>k \<in> set (dict_keys scores).
      \<exists>y. bind (dict_getitem scores k) (\<lambda>v. Inr (k, v)) = Inr y"
    using dict_getitem_present [of _ scores] by fastforce
  from map_result_exists [OF this] show ?thesis
    by (auto simp: get_ranking_def)
qed

lemma methods_total:
  "\<forall>(name, method) \<in> set methods. \<exists>scores. method rs candidates = Inr scores"
proof -
  have "\<exists>s. plurality rs candidates = Inr s"
    by (simp add: plurality_eq)
  moreover have "\<exists>s. borda_count rs candidates = Inr s"
    using borda_count_value [of rs candidates] by blast
  moreover have "\<exists>s. weighted_borda rs candidates = Inr s"
    using weighted_borda_value [of rs candidates] by blast
  moreover have "\<exists>s. copeland_score rs candidates = Inr s"
    using copeland_sum [of rs candidates] by blast
  moreover have "\<exists>s. ranked_pairs rs candidates = Inr s"
    using ranked_pairs_value [of rs candidates] by blast
  ultimately show ?thesis
    by (simp add: methods_def)
qed

lemma method_agreement_total: "\<exists>m. method_agreement rs candidates = Inr m"
  unfolding method_agreement_def
proof (rule map_result_exists, rule ballI)
  fix nm :: "string \<times> (Ranking list \<Rightarrow> string list \<Rightarrow> (string, real) dict result)"
  assume nm: "nm \<in> set methods"
  obtain name f where eq: "nm = (name, f)"
    by (cases nm)
  with nm methods_total [of rs candidates] obtain scores
    where scores: "f rs candidates = Inr scores"
    by auto
  from get_winner_total [of scores] obtain w where "get_winner scores = Inr w"
    by blast
  with scores show "\<exists>y. (case nm of (name, method) \<Rightarrow>
         bind (method rs candidates) (\<lambda>scores.
         bind (get_winner scores) (\<lambda>w. Inr (name, w)))) = Inr y"
    by (simp add: eq)
qed

lemma diversity_score_total: "\<exists>d. diversity_score rs candidates = Inr d"
proof (cases "length rs < 2")
  case True
  then show ?thesis
    by (simp add: diversity_score_def)
next
  case False
  from agreement_matrix_entries [of rs candidates] obtain M
    where "agreement_matrix rs candidates = Inr M" "matrix_over (map judge rs) M"
    by blast
  from diversity_score_eq [OF False this] show ?thesis
    by blast
qed

text \<open>
  Claim C7.  On every input of the model's types (any list of rankings, any candidate
  list, any score map; orders may be empty, partial, repeat candidates or name unknown
  ones, and confidences are arbitrary reals) each function of the core returns a value
  and raises nothing.  The agreement of two rankings with no comparable pair is \<open>0\<close>, and
  the diversity is \<open>0\<close> for fewer than two rankings and when all rankings come from one
  judge (no pair of judges).
\<close>

theorem core_never_raises:
  "(\<exists>s. plurality rs candidates = Inr s)
   \<and> (\<exists>s. borda_count rs candidates = Inr s)
   \<and> (\<exists>s. weighted_borda rs candidates = Inr s)
   \<and> (\<exists>s. copeland_score rs candidates = Inr s)
   \<and> (\<exists>s. ranked_pairs rs candidates = Inr s)
   \<and> (\<exists>w. get_winner scores = Inr w)
   \<and> (\<exists>l. get_ranking scores = Inr l)
   \<and> (\<exists>M. agreement_matrix rs candidates = Inr M)
   \<and> (\<exists>d. diversity_score rs candidates = Inr d)
   \<and> (\<exists>m. method_agreement rs candidates = Inr m)
   \<and> (\<exists>a. calculate_pairwise_agreement r1 r2 candidates = Inr a)
   \<and> (comparable_pairs r1 r2 candidates = [] \<longrightarrow>
        calculate_pairwise_agreement r1 r2 candidates = Inr 0)
   \<and> (length rs < 2 \<longrightarrow> diversity_score rs candidates = Inr 0)
   \<and> ((\<forall>r \<in> set rs. judge r = j) \<longrightarrow> diversity_score rs candidates = Inr 0)"
proof (intro conjI impI)
  show "\<exists>s. plurality rs candidates = Inr s"
    by (simp add: plurality_eq)
  show "\<exists>s. borda_count rs candidates = Inr s"
    using borda_count_value [of rs candidates] by blast
  show "\<exists>s. weighted_borda rs candidates = Inr s"
    using weighted_borda_value [of rs candidates] by blast
  show "\<exists>s. copeland_score rs candidates = Inr s"
    using copeland_sum [of rs candidates] by blast
  show "\<exists>s. ranked_pairs rs candidates = Inr s"
    using ranked_pairs_value [of rs candidates] by blast
  show "\<exists>w. get_winner scores = Inr w"
    by (rule get_winner_total)
  show "\<exists>l. get_ranking scores = Inr l"
    by (rule get_ranking_total)
  show "\<exists>M. agreement_matrix rs candidates = Inr M"
    using agreement_matrix_entries [of rs candidates] by blast
  show "\<exists>d. diversity_score rs candidates = Inr d"
    by (rule diversity_score_total)
  show "\<exists>m. method_agreement rs candidates = Inr m"
    by (rule method_agreement_total)
  show "\<exists>a. calculate_pairwise_agreement r1 r2 candidates = Inr a"
    by (simp add: calculate_pairwise_agreement_eq)
  show "calculate_pairwise_agreement r1 r2 candidates = Inr 0"
    if "comparable_pairs r1 r2 candidates = []"
    using that by (simp add: calculate_pairwise_agreement_eq pairwise_agreement_def)
  show "diversity_score rs candidates = Inr 0" if "length rs < 2"
    using that by (simp add: diversity_score_def)
  show "diversity_score rs candidates = Inr 0" if "\<forall>r \<in> set rs. judge r = j"
    using that by (rule diversity_single_judge)
qed

theorem core_never_raises_witness:
  "weighted_borda malformed_rankings [''r1'', ''r2'', ''r1''] = Inr [(''r1'', 7), (''r2'', 0)]
   \<and> copeland_score malformed_rankings [''r1'', ''r2'', ''r1''] = Inr [(''r1'', 2), (''r2'', 1)]
   \<and> method_agreement [] []
       = Inr [(''plurality'', ''''), (''borda'', ''''), (''weighted_borda'', ''''),
              (''copeland'', ''''), (''ranked_pairs'', '''')]
   \<and> comparable_pairs (malformed_rankings ! 0) (malformed_rankings ! 1) [''r1'', ''r2'', ''r1''] = []
   \<and> calculate_pairwise_agreement (malformed_rankings ! 0) (malformed_rankings ! 1)
         [''r1'', ''r2'', ''r1''] = Inr 0
   \<and> length ([] :: Ranking list) < 2
   \<and> diversity_score [] [] = Inr 0
   \<and> list_all (\<lambda>r. judge r = ''j1'') (take 2 repeated_judge_rankings)
   \<and> diversity_score (take 2 repeated_judge_rankings) [''r1'', ''r2''] = Inr 0"
proof -
  let ?cs = "[''r1'', ''r2'', ''r1'']"
  have v1: "weighted_borda malformed_rankings ?cs = Inr [(''r1'', 7), (''r2'', 0)]"
    by code_simp
  have v2: "copeland_score malformed_rankings ?cs = Inr [(''r1'', 2), (''r2'', 1)]"
    by code_simp
  have v3: "method_agreement [] []
       = Inr [(''plurality'', ''''), (''borda'', ''''), (''weighted_borda'', ''''),
              (''copeland'', ''''), (''ranked_pairs'', '''')]"
    by code_simp
  have h1: "comparable_pairs (malformed_rankings ! 0) (malformed_rankings ! 1) ?cs = []"
    by code_simp
  have h2: "length ([] :: Ranking list) < 2"
    by simp
  have h3: "\<forall>r \<in> set (take 2 repeated_judge_rankings). judge r = ''j1''"
    by (simp add: repeated_judge_rankings_def)
  note a = core_never_raises [of malformed_rankings ?cs "[]" "malformed_rankings ! 0"
      "malformed_rankings ! 1" "''j1''"]
  note b = core_never_raises [of "[]" "[]" "[]" "malformed_rankings ! 0"
      "malformed_rankings ! 1" "''j1''"]
  note c = core_never_raises [of "take 2 repeated_judge_rankings" "[''r1'', ''r2'']" "[]"
      "malformed_rankings ! 0" "malformed_rankings ! 1" "''j1''"]
  from a h1 have r1: "calculate_pairwise_agreement (malformed_rankings ! 0) (malformed_rankings ! 1)
         ?cs = Inr 0"
    by (elim conjE) (rule mp)
  from b h2 have r2: "diversity_score [] [] = Inr 0"
    by (elim conjE) (rule mp)
  from c h3 have r3: "diversity_score (take 2 repeated_judge_rankings) [''r1'', ''r2''] = Inr 0"
    by (elim conjE) (rule mp)
  have l: "list_all (\<lambda>r. judge r = ''j1'') (take 2 repeated_judge_rankings)"
    using h3 by (simp add: list_all_iff)
  show ?thesis
    by (intro conjI v1 v2 v3 h1 h2 r1 r2 r3 l)
qed

end
